theory Spec2Isabelle
  imports Complex_Main "HOL-Library.Multiset" "HOL-Library.Extended_Nat"
begin

section \<open>Numbers and typed arrays\<close>

text \<open>
  Samples, phases and positions are exact reals: \<open>Math.cos\<close>, \<open>Math.sin\<close>, \<open>Math.sqrt\<close>
  and \<open>Math.PI\<close> are \<open>cos\<close>, \<open>sin\<close>, \<open>sqrt\<close> and \<open>pi\<close>, and a \<open>Float32Array\<close> is a
  \<open>real list\<close>. Rounding is not represented. The operators \<open>>>\<close> and \<open><<\<close> work on
  32-bit signed integers in JavaScript, and the wrap-around is written out.
\<close>

definition toInt32 :: "int \<Rightarrow> int" where
  "toInt32 x = (x + 2147483648) mod 4294967296 - 2147483648"

text \<open>\<open>x >> 1\<close>\<close>

definition sar1 :: "int \<Rightarrow> int" where
  "sar1 x = toInt32 x div 2"

text \<open>\<open>x << 1\<close>\<close>

definition shl1 :: "int \<Rightarrow> int" where
  "shl1 x = toInt32 (2 * toInt32 x)"

text \<open>\<open>[a[i], a[j]] = [a[j], a[i]]\<close>: both reads come before both writes.\<close>

definition swap :: "real list \<Rightarrow> int \<Rightarrow> int \<Rightarrow> real list" where
  "swap xs i j = xs[nat i := xs ! nat j, nat j := xs ! nat i]"


section \<open>FFT (src/index.js, src/stretch-worker.js)\<close>

record FFT =
  fft_size :: int
  invSize :: real

definition new_FFT :: "int \<Rightarrow> FFT" where
  "new_FFT sz = \<lparr>fft_size = sz, invSize = 1 / real_of_int sz\<rparr>"

text \<open>
  \<open>while (k <= j) { j -= k; k >>= 1; }\<close>. The loop does not end once \<open>k\<close> has
  reached 0 (or -1): not returning is the value \<open>None\<close>.
\<close>

partial_function (option) bitrev_while :: "int \<Rightarrow> int \<Rightarrow> (int \<times> int) option" where
  "bitrev_while k j = (if k \<le> j then bitrev_while (sar1 k) (j - k) else Some (k, j))"

text \<open>\<open>for (let i = 0; i < n - 1; i++)\<close> of the bit reversal, with \<open>j\<close> carried along.\<close>

partial_function (option) bitrev_for ::
  "int \<Rightarrow> int \<Rightarrow> int \<Rightarrow> real list \<Rightarrow> real list \<Rightarrow> (real list \<times> real list) option" where
  "bitrev_for n i j re im =
    (if i < n - 1 then
       Option.bind (bitrev_while (sar1 n) j) (\<lambda>(k, j').
         bitrev_for n (i + 1) (j' + k)
           (if i < j then swap re i j else re)
           (if i < j then swap im i j else im))
     else Some (re, im))"

text \<open>\<open>for (let j = 0; j < halfLen; j++)\<close>: one butterfly per \<open>j\<close>.\<close>

function butterfly_j ::
  "real \<Rightarrow> int \<Rightarrow> int \<Rightarrow> int \<Rightarrow> real list \<Rightarrow> real list \<Rightarrow> real list \<times> real list" where
  "butterfly_j angleStep halfLen i j re im =
    (if j < halfLen then
       let m = i + j;
           n = m + halfLen;
           angle = angleStep * real_of_int j;
           c = cos angle;
           s = sin angle;
           tReal = re ! nat n * c - im ! nat n * s;
           tImag = re ! nat n * s + im ! nat n * c;
           re1 = re[nat n := re ! nat m - tReal];
           im1 = im[nat n := im ! nat m - tImag];
           re2 = re1[nat m := re1 ! nat m + tReal];
           im2 = im1[nat m := im1 ! nat m + tImag]
       in butterfly_j angleStep halfLen i (j + 1) re2 im2
     else (re, im))"
  by pat_completeness auto
termination
  by (relation "measure (\<lambda>(a, h, i, j, re, im). nat (h - j))") auto

declare butterfly_j.simps [simp del]

text \<open>\<open>for (let i = 0; i < n; i += len)\<close>: it does not end when \<open>len\<close> is not positive.\<close>

partial_function (option) butterfly_i ::
  "int \<Rightarrow> int \<Rightarrow> int \<Rightarrow> real \<Rightarrow> int \<Rightarrow> real list \<Rightarrow> real list \<Rightarrow> (real list \<times> real list) option" where
  "butterfly_i n len halfLen angleStep i re im =
    (if i < n then
       (case butterfly_j angleStep halfLen i 0 re im of
          (re', im') \<Rightarrow> butterfly_i n len halfLen angleStep (i + len) re' im')
     else Some (re, im))"

text \<open>\<open>while (len <= n) { ...; len <<= 1; }\<close>\<close>

partial_function (option) butterfly_len ::
  "int \<Rightarrow> int \<Rightarrow> real list \<Rightarrow> real list \<Rightarrow> (real list \<times> real list) option" where
  "butterfly_len n len re im =
    (if len \<le> n then
       Option.bind (butterfly_i n len (sar1 len) (- 2 * pi / real_of_int len) 0 re im)
         (\<lambda>(re', im'). butterfly_len n (shl1 len) re' im')
     else Some (re, im))"

definition forward :: "FFT \<Rightarrow> real list \<Rightarrow> real list \<Rightarrow> (real list \<times> real list) option" where
  "forward fft re im =
    (let n = fft_size fft in
     Option.bind (bitrev_for n 0 0 re im) (\<lambda>(re', im'). butterfly_len n 2 re' im'))"

text \<open>\<open>inverse\<close>: conjugate, \<open>forward\<close>, conjugate and scale.\<close>

definition inverse_fft :: "FFT \<Rightarrow> real list \<Rightarrow> real list \<Rightarrow> (real list \<times> real list) option" where
  "inverse_fft fft re im =
    (let im1 = fold (\<lambda>i im. im[i := - (im ! i)]) [0..<nat (fft_size fft)] im in
     Option.bind (forward fft re im1) (\<lambda>(re2, im2).
       Some (fold (\<lambda>i (re, im). (re[i := re ! i * invSize fft], im[i := im ! i * (- invSize fft)]))
               [0..<nat (fft_size fft)] (re2, im2))))"


section \<open>The transform as a sum, and the bit reversal\<close>

fun bitrev :: "nat \<Rightarrow> nat \<Rightarrow> nat" where
  "bitrev 0 i = 0"
| "bitrev (Suc m) i = (i mod 2) * 2 ^ m + bitrev m (i div 2)"

definition partly_reversed :: "nat \<Rightarrow> nat \<Rightarrow> real list \<Rightarrow> real list \<Rightarrow> bool" where
  "partly_reversed m i orig cur \<longleftrightarrow>
     length cur = length orig \<and>
     (\<forall>t<2 ^ m. cur ! t = (if t < i \<or> bitrev m t < i then orig ! bitrev m t else orig ! t))"

definition bitrev_list :: "nat \<Rightarrow> real list \<Rightarrow> real list" where
  "bitrev_list m xs = map (\<lambda>t. xs ! bitrev m t) [0..<length xs]"

definition cplx :: "real list \<Rightarrow> real list \<Rightarrow> nat \<Rightarrow> complex" where
  "cplx re im t = Complex (re ! t) (im ! t)"

text \<open>One butterfly on the positions \<open>M\<close> and \<open>N\<close>, as the body of the innermost loop does it.\<close>

definition butterfly_at :: "real \<Rightarrow> nat \<Rightarrow> nat \<Rightarrow> real list \<times> real list \<Rightarrow> real list \<times> real list" where
  "butterfly_at angle M N = (\<lambda>(re, im).
     let tReal = re ! N * cos angle - im ! N * sin angle;
         tImag = re ! N * sin angle + im ! N * cos angle
     in (re[N := re ! M - tReal, M := re ! M + tReal], im[N := im ! M - tImag, M := im ! M + tImag]))"

definition after_j :: "real \<Rightarrow> nat \<Rightarrow> nat \<Rightarrow> nat \<Rightarrow> (nat \<Rightarrow> complex) \<Rightarrow> nat \<Rightarrow> complex" where
  "after_j a h i j0 Z t =
     (if i + j0 \<le> t \<and> t < i + h then Z t + cis (a * real (t - i)) * Z (t + h)
      else if i + h + j0 \<le> t \<and> t < i + 2 * h then Z (t - h) - cis (a * real (t - h - i)) * Z t
      else Z t)"

definition pass :: "real \<Rightarrow> nat \<Rightarrow> (nat \<Rightarrow> complex) \<Rightarrow> nat \<Rightarrow> complex" where
  "pass a h Z t =
     (if t mod (2 * h) < h then Z t + cis (a * real (t mod (2 * h))) * Z (t + h)
      else Z (t - h) - cis (a * real (t mod (2 * h) - h)) * Z t)"

definition unity_root :: "nat \<Rightarrow> complex" where
  "unity_root n = cis (- 2 * pi / real n)"

definition stage :: "nat \<Rightarrow> (nat \<Rightarrow> complex) \<Rightarrow> nat \<Rightarrow> complex" where
  "stage s B t = (\<Sum>p<2 ^ s. B (t div 2 ^ s * 2 ^ s + p) * unity_root (2 ^ s) ^ (t mod 2 ^ s * bitrev s p))"

definition dft :: "nat \<Rightarrow> (nat \<Rightarrow> complex) \<Rightarrow> nat \<Rightarrow> complex" where
  "dft n x k = (\<Sum>j<n. x j * cis (- 2 * pi * real k * real j / real n))"

definition idft :: "nat \<Rightarrow> (nat \<Rightarrow> complex) \<Rightarrow> nat \<Rightarrow> complex" where
  "idft n X k = (\<Sum>j<n. X j * cis (2 * pi * real k * real j / real n)) / of_nat n"

text \<open>\<open>inverse\<close> applied to what \<open>forward\<close> leaves of a real array \<open>x\<close> (\<open>imag = 0\<close>).\<close>

definition round_trip :: "FFT \<Rightarrow> real list \<Rightarrow> (real list \<times> real list) option" where
  "round_trip fft x =
    Option.bind (forward fft x (replicate (length x) 0)) (\<lambda>(re1, im1). inverse_fft fft re1 im1)"


section \<open>Window size (src/index.js, stretch)\<close>

text \<open>
  \<open>Math.floor(this.windowSize * sampleRate)\<close> and
  \<open>Math.pow(2, Math.ceil(Math.log2(windowSamples)))\<close>. \<open>Math.log2(0)\<close> is
  \<open>-Infinity\<close> and \<open>Math.pow(2, -Infinity)\<close> is 0. A negative \<open>windowSamples\<close> (a
  negative window length or sample rate) gives \<open>NaN\<close>, which has no counterpart here.
\<close>

definition windowSamples_of :: "real \<Rightarrow> real \<Rightarrow> int" where
  "windowSamples_of windowSize sampleRate = \<lfloor>windowSize * sampleRate\<rfloor>"

definition winSize_of :: "int \<Rightarrow> int" where
  "winSize_of w = (if w = 0 then 0 else 2 ^ nat \<lceil>log 2 (real_of_int w)\<rceil>)"

definition halfWinSize_of :: "int \<Rightarrow> real" where
  "halfWinSize_of w = real_of_int (winSize_of w) / 2"


section \<open>Rephaser (src/index.js makeRephaser, src/stretch-worker.js processFrames)\<close>

text \<open>
  The body of \<open>for (let i = 0; i <= halfWinSize; i++)\<close>: the amplitude of bin \<open>i\<close> with the
  new phase.
\<close>

definition rephase_bin :: "real list \<Rightarrow> nat \<Rightarrow> real list \<times> real list \<Rightarrow> real list \<times> real list" where
  "rephase_bin phases i = (\<lambda>(re, im).
     let amplitude = sqrt (re ! i * re ! i + im ! i * im ! i)
     in (re[i := amplitude * cos (phases ! i)], im[i := amplitude * sin (phases ! i)]))"

text \<open>The body of \<open>for (let i = 1; i < halfWinSize; i++)\<close>: the mirror of bin \<open>i\<close>.\<close>

definition mirror_bin :: "int \<Rightarrow> nat \<Rightarrow> real list \<times> real list \<Rightarrow> real list \<times> real list" where
  "mirror_bin winSize i = (\<lambda>(re, im).
     (re[nat (winSize - int i) := re ! i], im[nat (winSize - int i) := - (im ! i)]))"

text \<open>
  The rephaser up to and including the inverse FFT: \<open>real\<close> is a copy of the block,
  \<open>imag\<close> is zero, \<open>halfWinSize = winSize / 2\<close> is a number and need not be an integer.
\<close>

definition rephase_ifft :: "int \<Rightarrow> real list \<Rightarrow> real list \<Rightarrow> (real list \<times> real list) option" where
  "rephase_ifft winSize array phases =
    (let halfWinSize = real_of_int winSize / 2;
         fft = new_FFT winSize
     in Option.bind (forward fft array (replicate (nat winSize) 0)) (\<lambda>spectrum.
          let polar = fold (rephase_bin phases) [0..<nat \<lfloor>halfWinSize\<rfloor> + 1] spectrum;
              mirrored = fold (mirror_bin winSize) [1..<nat \<lceil>halfWinSize\<rceil>] polar
          in inverse_fft fft (fst mirrored) (snd mirrored)))"

text \<open>\<open>makeRephaser(winSize)(array, phases)\<close>: the real part is copied back into the block.\<close>

definition makeRephaser :: "int \<Rightarrow> real list \<Rightarrow> real list \<Rightarrow> real list option" where
  "makeRephaser winSize array phases =
    Option.bind (rephase_ifft winSize array phases) (\<lambda>(re, im).
      Some (fold (\<lambda>i a. a[i := re ! i]) [0..<nat winSize] array))"


section \<open>Typed arrays in memory\<close>

text \<open>
  Arrays that the caller and \<open>stretch\<close> can both reach live in a store: an address names a
  \<open>Float32Array\<close>, \<open>next_free\<close> is the first address not yet handed out, and
  \<open>has_NaN\<close> records that some element was stored as \<open>NaN\<close>. Reals have no \<open>NaN\<close>:
  once the flag is set the numbers in the store say nothing about the source's values; the
  lengths, the addresses and the course of the loops are still those of the source.
\<close>

record heap =
  arrays :: "nat \<Rightarrow> real list"
  next_free :: nat
  has_NaN :: bool


text \<open>\<open>new Float32Array(...)\<close> with the given contents.\<close>

definition alloc :: "real list \<Rightarrow> heap \<Rightarrow> nat \<times> heap" where
  "alloc xs h = (next_free h, h\<lparr>arrays := (arrays h)(next_free h := xs), next_free := Suc (next_free h)\<rparr>)"

text \<open>Several arrays with the same contents, one after the other.\<close>

fun alloc_each :: "nat \<Rightarrow> real list \<Rightarrow> heap \<Rightarrow> nat list \<times> heap" where
  "alloc_each 0 xs h = ([], h)"
| "alloc_each (Suc n) xs h =
     (case alloc xs h of (a, h1) \<Rightarrow> case alloc_each n xs h1 of (as, h2) \<Rightarrow> (a # as, h2))"

text \<open>
  An index is a number. A typed array has an element there only if the number is an
  integer within the bounds: a read elsewhere gives \<open>undefined\<close> (here \<open>None\<close>), a write
  elsewhere is ignored.
\<close>

definition valid_index :: "real list \<Rightarrow> real \<Rightarrow> bool" where
  "valid_index xs r \<longleftrightarrow> 0 \<le> r \<and> r < real (length xs) \<and> real_of_int \<lfloor>r\<rfloor> = r"

definition ta_get :: "heap \<Rightarrow> nat \<Rightarrow> real \<Rightarrow> real option" where
  "ta_get h a r = (if valid_index (arrays h a) r then Some (arrays h a ! nat \<lfloor>r\<rfloor>) else None)"

text \<open>\<open>a[r] = v\<close>, where the value \<open>None\<close> is \<open>NaN\<close> (a sum or product with \<open>undefined\<close>).\<close>

definition ta_set :: "nat \<Rightarrow> real \<Rightarrow> real option \<Rightarrow> heap \<Rightarrow> heap" where
  "ta_set a r v h =
     (if valid_index (arrays h a) r then
        (case v of
           Some x \<Rightarrow> h\<lparr>arrays := (arrays h)(a := (arrays h a)[nat \<lfloor>r\<rfloor> := x])\<rparr>
         | None \<Rightarrow> h\<lparr>arrays := (arrays h)(a := (arrays h a)[nat \<lfloor>r\<rfloor> := 0]), has_NaN := True\<rparr>)
      else h)"

definition js_add :: "real option \<Rightarrow> real option \<Rightarrow> real option" where
  "js_add x y = (case (x, y) of (Some a, Some b) \<Rightarrow> Some (a + b) | _ \<Rightarrow> None)"

definition js_mul :: "real option \<Rightarrow> real option \<Rightarrow> real option" where
  "js_mul x y = (case (x, y) of (Some a, Some b) \<Rightarrow> Some (a * b) | _ \<Rightarrow> None)"


section \<open>Window and normalization (src/index.js)\<close>

text \<open>
  \<open>createWindow(winSize)\<close>: \<open>counter\<close> runs from -1 in steps of \<open>2 / (winSize - 1)\<close>;
  \<open>Math.pow(x, 1.25)\<close> is \<open>x powr 1.25\<close> for the non-negative \<open>x\<close> that occur.
\<close>

definition createWindow :: "int \<Rightarrow> real list" where
  "createWindow winSize =
    (let step = 2 / (real_of_int winSize - 1) in
     fst (fold (\<lambda>i (winArray, counter).
                 (winArray[i := (1 - counter ^ 2) powr 1.25], counter + step))
            [0..<nat winSize] (replicate (nat winSize) 0, - 1)))"

text \<open>
  \<open>applyWindow(block, winArray)\<close>, \<open>block\<close> being the list of the channels' arrays:
  \<open>frameCount\<close> is the length of the first of them.
\<close>

definition applyWindow :: "nat list \<Rightarrow> nat \<Rightarrow> heap \<Rightarrow> heap" where
  "applyWindow block winArray h =
    fold (\<lambda>i. fold (\<lambda>ch h.
            ta_set (block ! ch) (real i)
              (js_mul (ta_get h (block ! ch) (real i)) (ta_get h winArray (real i))) h)
          [0..<length block])
      [0..<length (arrays h (block ! 0))] h"

text \<open>
  The normalization at the end of \<open>_stretchSingleThread\<close> and \<open>_stretchParallel\<close>, on one
  channel: the peak, then the scaling by \<open>0.95 / maxVal\<close>.
\<close>

definition maxVal_of :: "real list \<Rightarrow> real" where
  "maxVal_of channelData = fold (\<lambda>i maxVal. max maxVal \<bar>channelData ! i\<bar>) [0..<length channelData] 0"

definition normalize_channel :: "real list \<Rightarrow> real list" where
  "normalize_channel channelData =
    (let maxVal = maxVal_of channelData in
     if maxVal > 0 then
       (let scale = 0.95 / maxVal in
        fold (\<lambda>i cd. cd[i := cd ! i * scale]) [0..<length channelData] channelData)
     else channelData)"



definition normalize_channels :: "nat list \<Rightarrow> heap \<Rightarrow> heap" where
  "normalize_channels chans h =
    fold (\<lambda>a h. h\<lparr>arrays := (arrays h)(a := normalize_channel (arrays h a))\<rparr>) chans h"


section \<open>The stretch engine (src/index.js, class PaulStretch)\<close>

text \<open>
  An \<open>AudioBuffer\<close>: its sample rate, its \<open>length\<close> in frames and, for each channel, the
  address of the array that \<open>getChannelData\<close> returns. \<open>numberOfChannels\<close> is the number of
  these; an \<open>AudioBuffer\<close> has at least one.
\<close>

record AudioBuffer =
  sampleRate :: real
  frames :: nat
  channelData :: "nat list"

text \<open>
  The fields of a \<open>PaulStretch\<close> that \<open>stretch\<close> reads; \<open>workers\<close> is
  \<open>this.workers.length\<close>.
\<close>

record PaulStretch =
  stretchFactor :: real
  windowSize :: real
  useWorkers :: bool
  workers :: nat

text \<open>
  \<open>audioContext.createBuffer(numChannels, outputLength, sampleRate)\<close>, as the mock of the
  tests has it: that many channels of that many zeros. (The context is handed to the
  constructor from outside; a browser refuses a length of 0.)
\<close>

definition createBuffer :: "nat \<Rightarrow> int \<Rightarrow> real \<Rightarrow> heap \<Rightarrow> AudioBuffer \<times> heap" where
  "createBuffer numChannels outputLength rate h =
    (case alloc_each numChannels (replicate (nat outputLength) 0) h of
       (chans, h') \<Rightarrow> (\<lparr>sampleRate = rate, frames = nat outputLength, channelData = chans\<rparr>, h'))"

text \<open>
  \<open>blockIn.push(new Float32Array(winSize)); blockOut.push(new Float32Array(winSize));\<close>
  for each channel.
\<close>

fun alloc_blocks :: "nat \<Rightarrow> nat \<Rightarrow> heap \<Rightarrow> nat list \<times> nat list \<times> heap" where
  "alloc_blocks 0 n h = ([], [], h)"
| "alloc_blocks (Suc k) n h =
     (case alloc (replicate n 0) h of (a, h1) \<Rightarrow>
      case alloc (replicate n 0) h1 of (b, h2) \<Rightarrow>
      case alloc_blocks k n h2 of (as, bs, h3) \<Rightarrow> (a # as, b # bs, h3))"

text \<open>The values that stay fixed while the frames of one call are processed.\<close>

record frame_ctx =
  winSize :: int
  halfWinSize :: real
  displacePos :: real
  outputLength :: int
  inputLength :: nat
  inputData :: "nat list"
  outputData :: "nat list"
  winArray :: nat
  blockIn :: "nat list"
  blockOut :: "nat list"
  phaseArray :: nat

text \<open>
  What changes from frame to frame; \<open>randomCalls\<close> counts the calls of \<open>Math.random\<close>, whose
  results are given from outside as the sequence \<open>rnd\<close>.
\<close>

record frame_state =
  inputPos :: real
  outputPos :: real
  frameCount :: nat
  randomCalls :: nat
  mem :: heap

text \<open>\<open>blockIn[ch][i] = inputData[ch][Math.floor(inputPos) + i]\<close> for every channel.\<close>

definition fill_blocks :: "frame_ctx \<Rightarrow> real \<Rightarrow> heap \<Rightarrow> heap" where
  "fill_blocks c pos h =
    fold (\<lambda>ch. fold (\<lambda>i h.
            ta_set (blockIn c ! ch) (real i)
              (ta_get h (inputData c ! ch) (real_of_int \<lfloor>pos\<rfloor> + real i)) h)
          [0..<nat (winSize c)])
      [0..<length (inputData c)] h"

text \<open>
  \<open>rephase(blockIn[ch], phaseArray)\<close>: the rephaser works on copies of its own and writes
  the block; it does not return when the FFT does not.
\<close>

definition rephase :: "int \<Rightarrow> nat \<Rightarrow> nat \<Rightarrow> heap \<Rightarrow> heap option" where
  "rephase ws array phases h =
    Option.bind (makeRephaser ws (arrays h array) (arrays h phases))
      (\<lambda>res. Some (h\<lparr>arrays := (arrays h)(array := res)\<rparr>))"

text \<open>
  For each channel: \<open>halfWinSize + 1\<close> fresh phases \<open>Math.random() * 2 * Math.PI\<close>, then the
  rephaser.
\<close>

fun rephase_channels ::
  "frame_ctx \<Rightarrow> (nat \<Rightarrow> real) \<Rightarrow> nat list \<Rightarrow> nat \<Rightarrow> heap \<Rightarrow> (nat \<times> heap) option" where
  "rephase_channels c rnd [] calls h = Some (calls, h)"
| "rephase_channels c rnd (ch # chs) calls h =
    (let n = nat \<lfloor>halfWinSize c\<rfloor> + 1;
         h1 = fold (\<lambda>i. ta_set (phaseArray c) (real i) (Some (rnd (calls + i) * 2 * pi))) [0..<n] h
     in Option.bind (rephase (winSize c) (blockIn c ! ch) (phaseArray c) h1)
          (\<lambda>h2. rephase_channels c rnd chs (calls + n) h2))"

text \<open>
  \<open>for (let i = 0; i < halfWinSize && outputPos + i < outputLength; i++)
     channelOut[outputPos + i] += block[i] + blockOut[halfWinSize + i];\<close>
\<close>

function overlap_add :: "real \<Rightarrow> int \<Rightarrow> real \<Rightarrow> nat \<Rightarrow> nat \<Rightarrow> nat \<Rightarrow> nat \<Rightarrow> heap \<Rightarrow> heap" where
  "overlap_add half outLen opos channelOut block bOut i h =
    (if real i < half \<and> opos + real i < real_of_int outLen then
       overlap_add half outLen opos channelOut block bOut (Suc i)
         (ta_set channelOut (opos + real i)
            (js_add (ta_get h channelOut (opos + real i))
               (js_add (ta_get h block (real i)) (ta_get h bOut (half + real i)))) h)
     else h)"
  by pat_completeness auto
termination
  by (relation "measure (\<lambda>(half, outLen, opos, co, b, bo, i, h). nat \<lceil>half\<rceil> - i)") (auto, linarith)

declare overlap_add.simps [simp del]

text \<open>\<open>for (let i = 0; i < winSize; i++) blockOut[i] = block[i];\<close>\<close>

definition store_block :: "int \<Rightarrow> nat \<Rightarrow> nat \<Rightarrow> heap \<Rightarrow> heap" where
  "store_block ws block bOut h =
    fold (\<lambda>i h. ta_set bOut (real i) (ta_get h block (real i)) h) [0..<nat ws] h"

text \<open>The overlap-add of one frame and the copy of the block into \<open>blockOut\<close>, channel by channel.\<close>

definition add_frame :: "frame_ctx \<Rightarrow> real \<Rightarrow> heap \<Rightarrow> heap" where
  "add_frame c opos h =
    fold (\<lambda>ch h.
        store_block (winSize c) (blockIn c ! ch) (blockOut c ! ch)
          (overlap_add (halfWinSize c) (outputLength c) opos
             (outputData c ! ch) (blockIn c ! ch) (blockOut c ! ch) 0 h))
      [0..<length (inputData c)] h"

text \<open>One turn of \<open>while (inputPos + winSize <= audioBuffer.length)\<close>.\<close>

definition frame_body :: "frame_ctx \<Rightarrow> (nat \<Rightarrow> real) \<Rightarrow> frame_state \<Rightarrow> frame_state option" where
  "frame_body c rnd s =
    (let h1 = fill_blocks c (inputPos s) (mem s);
         h2 = applyWindow (blockIn c) (winArray c) h1
     in Option.bind (rephase_channels c rnd [0..<length (inputData c)] (randomCalls s) h2)
          (\<lambda>(calls, h3).
             let h4 = applyWindow (blockIn c) (winArray c) h3;
                 h5 = add_frame c (outputPos s) h4
             in Some \<lparr>inputPos = inputPos s + displacePos c,
                      outputPos = outputPos s + halfWinSize c,
                      frameCount = Suc (frameCount s),
                      randomCalls = calls,
                      mem = h5\<rparr>))"

partial_function (option) frames_loop ::
  "frame_ctx \<Rightarrow> (nat \<Rightarrow> real) \<Rightarrow> frame_state \<Rightarrow> frame_state option" where
  "frames_loop c rnd s =
    (if inputPos s + real_of_int (winSize c) \<le> real (inputLength c) then
       Option.bind (frame_body c rnd s) (frames_loop c rnd)
     else Some s)"

text \<open>
  \<open>_stretchSingleThread(audioBuffer, progressCallback)\<close>. The progress callback only
  receives numbers and is left out. The result is the new buffer with the memory after the
  call. The numbers are exact reals: for a stretch factor of 0 the source divides by zero
  (\<open>Infinity\<close> or \<open>NaN\<close>), which has no counterpart here, so the model is that of the
  source for stretch factors other than 0.
\<close>

definition stretchSingleThread ::
  "PaulStretch \<Rightarrow> (nat \<Rightarrow> real) \<Rightarrow> AudioBuffer \<Rightarrow> heap \<Rightarrow> (AudioBuffer \<times> heap) option" where
  "stretchSingleThread this rnd audioBuffer h0 =
    (let numChannels = length (channelData audioBuffer);
         windowSamples = windowSamples_of (windowSize this) (sampleRate audioBuffer);
         ws = winSize_of windowSamples;
         half = real_of_int ws / 2;
         outLen = \<lfloor>real (frames audioBuffer) * stretchFactor this\<rfloor>;
         (output, h1) = createBuffer numChannels outLen (sampleRate audioBuffer) h0;
         (win, h2) = alloc (createWindow ws) h1;
         (phases, h3) = alloc (replicate (nat \<lfloor>half + 1\<rfloor>) 0) h2;
         (bIn, bOut, h5) = alloc_blocks numChannels (nat ws) h3;
         c = \<lparr>winSize = ws, halfWinSize = half, displacePos = half / stretchFactor this,
              outputLength = outLen, inputLength = frames audioBuffer,
              inputData = channelData audioBuffer, outputData = channelData output,
              winArray = win, blockIn = bIn, blockOut = bOut, phaseArray = phases\<rparr>
     in Option.bind
          (frames_loop c rnd \<lparr>inputPos = 0, outputPos = 0, frameCount = 0, randomCalls = 0, mem = h5\<rparr>)
          (\<lambda>s. Some (output, normalize_channels (channelData output) (mem s))))"


section \<open>The worker (src/stretch-worker.js) and the parallel path (src/index.js)\<close>

text \<open>
  One frame of \<open>processFrames\<close>: the block at \<open>Math.floor(inputPos)\<close>, the window, the
  rephasing with \<open>halfWinSize + 1\<close> fresh random phases, the window again. The worker has
  its own copies of the channel and of the window, so they are values here.
\<close>

definition process_frame ::
  "int \<Rightarrow> real list \<Rightarrow> real list \<Rightarrow> (nat \<Rightarrow> real) \<Rightarrow> nat \<Rightarrow> real \<Rightarrow> real list option" where
  "process_frame ws input win rnd calls pos =
    (let n = nat ws;
         block0 = fold (\<lambda>j b. b[j := input ! (nat \<lfloor>pos\<rfloor> + j)]) [0..<n] (replicate n 0);
         block1 = fold (\<lambda>j b. b[j := b ! j * win ! j]) [0..<n] block0;
         phases = fold (\<lambda>j p. p[j := rnd (calls + j) * 2 * pi]) [0..<nat \<lfloor>real_of_int ws / 2\<rfloor> + 1]
                    (replicate (nat \<lfloor>real_of_int ws / 2 + 1\<rfloor>) 0)
     in Option.bind (rephase_ifft ws block1 phases) (\<lambda>(re, im).
          Some (fold (\<lambda>j b. b[j := re ! j * win ! j]) [0..<n] block1)))"

text \<open>
  \<open>for (let i = 0; i < numFrames; i++) { if (inputPos + winSize > inputData.length) break; ... }\<close>
  with the results so far; \<open>numFrames\<close> may be \<open>Infinity\<close>.
\<close>

partial_function (option) processFrames_loop ::
  "int \<Rightarrow> real \<Rightarrow> real list \<Rightarrow> real list \<Rightarrow> (nat \<Rightarrow> real) \<Rightarrow> enat \<Rightarrow>
   nat \<Rightarrow> real \<Rightarrow> (real list \<times> real) list \<Rightarrow> (real list \<times> real) list option" where
  "processFrames_loop ws displace input win rnd numFrames i pos results =
    (if enat i < numFrames then
       (if pos + real_of_int ws > real (length input) then Some results
        else Option.bind (process_frame ws input win rnd (i * (nat \<lfloor>real_of_int ws / 2\<rfloor> + 1)) pos)
               (\<lambda>block. processFrames_loop ws displace input win rnd numFrames (Suc i)
                           (pos + displace) (results @ [(block, pos)])))
     else Some results)"

definition processFrames ::
  "int \<Rightarrow> real \<Rightarrow> real list \<Rightarrow> real list \<Rightarrow> (nat \<Rightarrow> real) \<Rightarrow> real \<Rightarrow> enat \<Rightarrow>
   (real list \<times> real) list option" where
  "processFrames ws sf input win rnd start numFrames =
    processFrames_loop ws (real_of_int ws / 2 / sf) input win rnd numFrames 0 start []"

text \<open>
  What a worker posts for one work unit: the blocks with their positions, or the message of
  the exception it caught.
\<close>

datatype worker_msg = Success "(real list \<times> real) list" | Failure string

record work_unit =
  channelIndex :: nat
  startFrame :: real
  numFrames :: enat

text \<open>
  \<open>while (frameIdx < totalFrames) { numFrames = Math.min(idealChunkSize, totalFrames - frameIdx);
     if (numFrames <= 0) break; workQueue.push(...); frameIdx += numFrames; }\<close>
\<close>

function chunk_channel :: "int \<Rightarrow> int \<Rightarrow> real \<Rightarrow> nat \<Rightarrow> int \<Rightarrow> work_unit list" where
  "chunk_channel idealChunkSize totalFrames displace ch frameIdx =
    (if frameIdx < totalFrames then
       (let n = min idealChunkSize (totalFrames - frameIdx) in
        if n \<le> 0 then []
        else \<lparr>channelIndex = ch, startFrame = real_of_int frameIdx * displace, numFrames = enat (nat n)\<rparr>
               # chunk_channel idealChunkSize totalFrames displace ch (frameIdx + n))
     else [])"
  by pat_completeness auto
termination
  by (relation "measure (\<lambda>(ideal, total, d, ch, f). nat (total - f))") auto

declare chunk_channel.simps [simp del]

text \<open>
  The work queue. \<open>totalFrames = Math.floor((length - winSize) / displacePos)\<close>; when
  \<open>displacePos\<close> is 0 the quotient is \<open>NaN\<close> (no unit is queued), \<open>Infinity\<close> (one unit
  of infinitely many frames for each channel) or \<open>-Infinity\<close> (no unit).
\<close>

definition work_queue :: "nat \<Rightarrow> nat \<Rightarrow> int \<Rightarrow> real \<Rightarrow> nat \<Rightarrow> work_unit list" where
  "work_queue numChannels len ws displace nworkers =
    (if displace = 0 then
       (if real len - real_of_int ws > 0
        then map (\<lambda>ch. \<lparr>channelIndex = ch, startFrame = 0, numFrames = \<infinity>\<rparr>) [0..<numChannels]
        else [])
     else
       (let totalFrames = \<lfloor>(real len - real_of_int ws) / displace\<rfloor>;
            idealChunkSize = max 1 \<lfloor>real_of_int totalFrames / real (nworkers * 3)\<rfloor>
        in concat (map (\<lambda>ch. chunk_channel idealChunkSize totalFrames displace ch 0) [0..<numChannels])))"

text \<open>
  The pairs of one channel, in the order of \<open>allResults\<close>; each received block is an array
  of its own in the memory of the main thread.
\<close>

fun receive_blocks :: "(real list \<times> real) list \<Rightarrow> heap \<Rightarrow> (nat \<times> real) list \<times> heap" where
  "receive_blocks [] h = ([], h)"
| "receive_blocks ((block, pos) # rest) h =
     (case alloc block h of (a, h1) \<Rightarrow>
      case receive_blocks rest h1 of (ps, h2) \<Rightarrow> ((a, pos) # ps, h2))"

text \<open>
  \<open>let outputPos = 0; for (const { block } of allBlocks) { ...; outputPos += halfWinSize; }\<close>:
  the overlap-add of the blocks in the given order, for one channel.
\<close>

definition add_blocks :: "int \<Rightarrow> real \<Rightarrow> int \<Rightarrow> nat \<Rightarrow> nat \<Rightarrow> (nat \<times> real) list \<Rightarrow> heap \<Rightarrow> heap" where
  "add_blocks ws half outLen channelOut bOut allBlocks h =
    snd (fold (\<lambda>(block, pos) (opos, h).
                 (opos + half,
                  store_block ws block bOut (overlap_add half outLen opos channelOut block bOut 0 h)))
           allBlocks (0, h))"

text \<open>
  One channel of the reassembly: a zero \<open>blockOut\<close>, the sort
  \<open>allBlocks.sort((a, b) => a.inputPos - b.inputPos)\<close> (a stable sort by the position), the
  overlap-add and the normalization.
\<close>

definition reassemble_channel :: "int \<Rightarrow> real \<Rightarrow> int \<Rightarrow> nat \<Rightarrow> (nat \<times> real) list \<Rightarrow> heap \<Rightarrow> heap" where
  "reassemble_channel ws half outLen channelOut allBlocks h =
    (case alloc (replicate (nat ws) 0) h of (bOut, h1) \<Rightarrow>
       normalize_channels [channelOut]
         (add_blocks ws half outLen channelOut bOut (sort_key snd allBlocks) h1))"

text \<open>
  The results of the units of channel \<open>ch\<close>, in the order of the queue; a result carries
  the \<open>channelIndex\<close> of its unit, which the worker sends back as it got it.
\<close>

definition channel_results ::
  "work_unit list \<Rightarrow> (nat \<Rightarrow> worker_msg option) \<Rightarrow> nat \<Rightarrow> (real list \<times> real) list" where
  "channel_results queue responses ch =
    concat (map (\<lambda>i. case responses i of Some (Success rs) \<Rightarrow> rs | _ \<Rightarrow> [])
              (filter (\<lambda>i. channelIndex (queue ! i) = ch) [0..<length queue]))"

definition reassemble ::
  "int \<Rightarrow> real \<Rightarrow> int \<Rightarrow> nat list \<Rightarrow> work_unit list \<Rightarrow> (nat \<Rightarrow> worker_msg option) \<Rightarrow> heap \<Rightarrow> heap" where
  "reassemble ws half outLen chans queue responses h =
    fold (\<lambda>ch h.
        case receive_blocks (channel_results queue responses ch) h of
          (allBlocks, h1) \<Rightarrow> reassemble_channel ws half outLen (chans ! ch) allBlocks h1)
      [0..<length chans] h"

datatype error = PaulStretchError string | Error string

text \<open>
  \<open>_stretchParallel\<close>. \<open>responses i\<close> is what comes back for the \<open>i\<close>-th unit of the queue,
  \<open>None\<close> if nothing ever does. \<open>Promise.all\<close> rejects as soon as one unit has failed (the
  first of them in the queue is taken here), waits for ever if none fails and one never
  answers, and otherwise hands over all results in the order of the queue.
\<close>

definition stretchParallel ::
  "PaulStretch \<Rightarrow> (nat \<Rightarrow> worker_msg option) \<Rightarrow> AudioBuffer \<Rightarrow> heap \<Rightarrow> ((error + AudioBuffer) \<times> heap) option" where
  "stretchParallel this responses audioBuffer h0 =
    (let numChannels = length (channelData audioBuffer);
         windowSamples = windowSamples_of (windowSize this) (sampleRate audioBuffer);
         ws = winSize_of windowSamples;
         half = real_of_int ws / 2;
         displace = half / stretchFactor this;
         outLen = \<lfloor>real (frames audioBuffer) * stretchFactor this\<rfloor>;
         (output, h1) = createBuffer numChannels outLen (sampleRate audioBuffer) h0;
         (win, h2) = alloc (createWindow ws) h1;
         queue = work_queue numChannels (frames audioBuffer) ws displace (workers this)
     in case List.find (\<lambda>i. case responses i of Some (Failure e) \<Rightarrow> True | _ \<Rightarrow> False) [0..<length queue] of
          Some i \<Rightarrow> (case responses i of Some (Failure e) \<Rightarrow> Some (Inl (Error e), h2) | _ \<Rightarrow> None)
        | None \<Rightarrow>
            if list_ex (\<lambda>i. responses i = None) [0..<length queue] then None
            else Some (Inr output, reassemble ws half outLen (channelData output) queue responses h2))"

text \<open>
  The answers of workers that run \<open>processFrames\<close> to the end without an exception, each
  unit with a random sequence of its own.
\<close>

definition worker_answers ::
  "PaulStretch \<Rightarrow> AudioBuffer \<Rightarrow> heap \<Rightarrow> (nat \<Rightarrow> nat \<Rightarrow> real) \<Rightarrow> nat \<Rightarrow> worker_msg option" where
  "worker_answers this audioBuffer h rnds i =
    (let ws = winSize_of (windowSamples_of (windowSize this) (sampleRate audioBuffer));
         queue = work_queue (length (channelData audioBuffer)) (frames audioBuffer) ws
                   (real_of_int ws / 2 / stretchFactor this) (workers this);
         u = queue ! i
     in map_option Success
          (processFrames ws (stretchFactor this) (arrays h (channelData audioBuffer ! channelIndex u))
             (createWindow ws) (rnds i) (startFrame u) (numFrames u)))"

text \<open>
  \<open>stretch(audioBuffer)\<close>: the argument is \<open>null\<close>, \<open>undefined\<close>, something that is not an
  \<open>AudioBuffer\<close>, or an \<open>AudioBuffer\<close>.
\<close>

datatype js_value = Null | Undefined | NotAudioBuffer | Buffer AudioBuffer

definition stretch ::
  "PaulStretch \<Rightarrow> (nat \<Rightarrow> real) \<Rightarrow> (nat \<Rightarrow> worker_msg option) \<Rightarrow> js_value \<Rightarrow> heap \<Rightarrow>
   ((error + AudioBuffer) \<times> heap) option" where
  "stretch this rnd responses arg h =
    (case arg of
       Buffer audioBuffer \<Rightarrow>
         if useWorkers this \<and> workers this > 0
         then stretchParallel this responses audioBuffer h
         else map_option (\<lambda>(out, h'). (Inr out, h')) (stretchSingleThread this rnd audioBuffer h)
     | _ \<Rightarrow> Some (Inl (PaulStretchError ''Invalid audio buffer''), h))"


section \<open>Predicates on memories\<close>

text \<open>
  What a piece of code may do to the memory: \<open>writes_within W\<close> changes elements of the
  arrays in \<open>W\<close> only; \<open>extends\<close> only adds arrays; \<open>grows W\<close> adds arrays and changes
  elements of the arrays in \<open>W\<close>. None of them changes the length of an array that was there,
  and a \<open>NaN\<close> once stored stays recorded.
  \<open>ctx_within W\<close>: the arrays that the frames of a call write are in \<open>W\<close>.
\<close>

definition writes_within :: "nat set \<Rightarrow> heap \<Rightarrow> heap \<Rightarrow> bool" where
  "writes_within W h h' \<longleftrightarrow>
     next_free h' = next_free h
   \<and> (\<forall>a. length (arrays h' a) = length (arrays h a))
   \<and> (\<forall>a. a \<notin> W \<longrightarrow> arrays h' a = arrays h a)
   \<and> (has_NaN h \<longrightarrow> has_NaN h')"

definition ctx_within :: "nat set \<Rightarrow> frame_ctx \<Rightarrow> bool" where
  "ctx_within W c \<longleftrightarrow>
     set (blockIn c) \<subseteq> W \<and> set (blockOut c) \<subseteq> W \<and> set (outputData c) \<subseteq> W
   \<and> phaseArray c \<in> W
   \<and> length (blockIn c) = length (inputData c) \<and> length (blockOut c) = length (inputData c)
   \<and> length (outputData c) = length (inputData c)"

definition extends :: "heap \<Rightarrow> heap \<Rightarrow> bool" where
  "extends h h' \<longleftrightarrow>
     next_free h \<le> next_free h' \<and> (\<forall>a<next_free h. arrays h' a = arrays h a) \<and> has_NaN h' = has_NaN h"

definition grows :: "nat set \<Rightarrow> heap \<Rightarrow> heap \<Rightarrow> bool" where
  "grows W h h' \<longleftrightarrow>
     next_free h \<le> next_free h'
   \<and> (\<forall>a<next_free h. length (arrays h' a) = length (arrays h a)
                      \<and> (a \<notin> W \<longrightarrow> arrays h' a = arrays h a))
   \<and> (has_NaN h \<longrightarrow> has_NaN h')"

text \<open>A channel as the normalization leaves it.\<close>

definition normalized :: "real list \<Rightarrow> bool" where
  "normalized xs \<longleftrightarrow> (\<exists>pre. length pre = length xs \<and> xs = normalize_channel pre)"

text \<open>
  The work queue of a call on the parallel path, and what the workers may have answered:
  some unit was reported as failed; every unit was answered with blocks.
\<close>

definition queue_of :: "PaulStretch \<Rightarrow> AudioBuffer \<Rightarrow> work_unit list" where
  "queue_of this b =
    (let ws = winSize_of (windowSamples_of (windowSize this) (sampleRate b))
     in work_queue (length (channelData b)) (frames b) ws
          (real_of_int ws / 2 / stretchFactor this) (workers this))"

definition worker_failed :: "PaulStretch \<Rightarrow> AudioBuffer \<Rightarrow> (nat \<Rightarrow> worker_msg option) \<Rightarrow> bool" where
  "worker_failed this b responses \<longleftrightarrow>
     (\<exists>i<length (queue_of this b). \<exists>e. responses i = Some (Failure e))"

definition all_answered :: "PaulStretch \<Rightarrow> AudioBuffer \<Rightarrow> (nat \<Rightarrow> worker_msg option) \<Rightarrow> bool" where
  "all_answered this b responses \<longleftrightarrow>
     (\<forall>i<length (queue_of this b). \<exists>rs. responses i = Some (Success rs))"

text \<open>
  A small call for examples: one channel of four frames at 8 Hz, stretched by 2, single-threaded
  or with one worker, the window length left open.
\<close>

definition demo_heap :: heap where
  "demo_heap = \<lparr>arrays = (\<lambda>a. [])(0 := [1 / 2, - 1, 1 / 4, 0]), next_free = 1, has_NaN = False\<rparr>"

definition demo_buffer :: AudioBuffer where
  "demo_buffer = \<lparr>sampleRate = 8, frames = 4, channelData = [0]\<rparr>"

definition demo_rnd :: "nat \<Rightarrow> real" where
  "demo_rnd = (\<lambda>n. 0)"

definition no_answers :: "nat \<Rightarrow> worker_msg option" where
  "no_answers = (\<lambda>i. None)"

definition demo_stretch :: "bool \<Rightarrow> real \<Rightarrow> PaulStretch" where
  "demo_stretch parallel window = \<lparr>stretchFactor = 2, windowSize = window, useWorkers = parallel, workers = 1\<rparr>"




text \<open>Every block that came back has \<open>winSize\<close> samples.\<close>

definition blocks_sized :: "PaulStretch \<Rightarrow> AudioBuffer \<Rightarrow> (nat \<Rightarrow> worker_msg option) \<Rightarrow> bool" where
  "blocks_sized this b responses \<longleftrightarrow>
     (\<forall>i<length (queue_of this b). \<forall>rs. responses i = Some (Success rs) \<longrightarrow>
        (\<forall>p\<in>set rs. length (fst p) = nat (winSize_of (windowSamples_of (windowSize this) (sampleRate b)))))"


section \<open>Properties of the FFT\<close>

lemma toInt32_id: "- 2147483648 \<le> x \<Longrightarrow> x < 2147483648 \<Longrightarrow> toInt32 x = x"
  by (simp add: toInt32_def)

lemma sar1_pow2: "m < 30 \<Longrightarrow> sar1 (2 ^ Suc m) = 2 ^ m"
proof -
  assume m: "m < 30"
  have "(2::int) ^ Suc m \<le> 2 ^ 30" using m by (intro power_increasing) auto
  then have a: "(2::int) * 2 ^ m \<le> 1073741824" by simp
  have c: "(0::int) \<le> 2 ^ m" by simp
  have "toInt32 (2 * 2 ^ m) = 2 * 2 ^ m" using a c by (intro toInt32_id) linarith+
  then show ?thesis by (simp add: sar1_def)
qed

lemma sar1_one: "sar1 1 = 0"
  by (simp add: sar1_def toInt32_def)

lemma shl1_pow2: "m \<le> 29 \<Longrightarrow> shl1 (2 ^ m) = 2 ^ Suc m"
proof -
  assume m: "m \<le> 29"
  have "(2::int) ^ Suc m \<le> 2 ^ 30" using m by (intro power_increasing) auto
  then have a: "(2::int) * 2 ^ m \<le> 1073741824" by simp
  have c: "(0::int) \<le> 2 ^ m" by simp
  have "toInt32 (2 ^ m) = 2 ^ m" using a c by (intro toInt32_id) linarith+
  moreover have "toInt32 (2 * 2 ^ m) = 2 * 2 ^ m" using a c by (intro toInt32_id) linarith+
  ultimately show ?thesis by (simp add: shl1_def)
qed

lemma bitrev_less: "bitrev m i < 2 ^ m"
proof (induction m arbitrary: i)
  case 0 show ?case by simp
next
  case (Suc m)
  have "i mod 2 = 0 \<or> i mod 2 = 1" by auto
  with Suc[of "i div 2"] show ?case by auto
qed

lemma bitrev_top: "b < 2 \<Longrightarrow> r < 2 ^ m \<Longrightarrow> bitrev (Suc m) (b * 2 ^ m + r) = 2 * bitrev m r + b"
proof (induction m arbitrary: r)
  case 0 then show ?case by simp
next
  case (Suc m)
  have d: "(b * 2 ^ Suc m + r) div 2 = b * 2 ^ m + r div 2" by simp
  have "(2 * (b * 2 ^ m) + r) mod 2 = r mod 2" by simp
  then have md: "(b * 2 ^ Suc m + r) mod 2 = r mod 2" by (simp add: ac_simps)
  have r2: "r div 2 < 2 ^ m" using Suc.prems by simp
  have "bitrev (Suc (Suc m)) (b * 2 ^ Suc m + r) = (r mod 2) * 2 ^ Suc m + bitrev (Suc m) (b * 2 ^ m + r div 2)"
    by (subst bitrev.simps) (simp add: d md del: bitrev.simps power_Suc)
  also have "\<dots> = (r mod 2) * 2 ^ Suc m + (2 * bitrev m (r div 2) + b)"
    using Suc.IH[OF Suc.prems(1) r2] by simp
  also have "\<dots> = 2 * bitrev (Suc m) r + b" by simp
  finally show ?case .
qed

lemma bitrev_invol: "i < 2 ^ m \<Longrightarrow> bitrev m (bitrev m i) = i"
proof (induction m arbitrary: i)
  case 0 then show ?case by simp
next
  case (Suc m)
  have i2: "i div 2 < 2 ^ m" using Suc.prems by simp
  have "bitrev (Suc m) (bitrev (Suc m) i) = bitrev (Suc m) ((i mod 2) * 2 ^ m + bitrev m (i div 2))"
    by simp
  also have "\<dots> = 2 * bitrev m (bitrev m (i div 2)) + i mod 2"
    by (rule bitrev_top) (simp_all add: bitrev_less)
  also have "\<dots> = i" using Suc.IH[OF i2] by simp
  finally show ?case .
qed

lemma bitrev_last: "bitrev m (2 ^ m - 1) = 2 ^ m - 1"
proof (induction m)
  case 0 show ?case by simp
next
  case (Suc m)
  have a: "(2 ^ Suc m - 1 :: nat) mod 2 = 1"
    by (simp add: mod2_eq_if)
  have b: "(2 ^ Suc m - 1 :: nat) div 2 = 2 ^ m - 1" by simp
  have "bitrev (Suc m) (2 ^ Suc m - 1) = 2 ^ m + bitrev m (2 ^ m - 1)"
    by (subst bitrev.simps) (use a b in \<open>simp del: bitrev.simps power_Suc\<close>)
  also have "\<dots> = 2 ^ Suc m - 1" using Suc by simp
  finally show ?case .
qed

lemma bitrev_bij: "bij_betw (bitrev m) {..<2 ^ m} {..<2 ^ m}"
  by (rule bij_betw_byWitness[where f' = "bitrev m"]) (auto simp: bitrev_invol bitrev_less)

text \<open>The counter \<open>j\<close> of the bit reversal: one step of the reversed-binary increment.\<close>

lemma bitrev_while_step:
  "m < 30 \<Longrightarrow> Suc i < 2 ^ Suc m \<Longrightarrow>
   \<exists>k j'. bitrev_while (2 ^ m) (int (bitrev (Suc m) i)) = Some (k, j')
        \<and> j' + k = int (bitrev (Suc m) (Suc i))"
proof (induction m arbitrary: i)
  case 0
  then have i: "i = 0" by simp
  show ?case unfolding i by (subst bitrev_while.simps) simp
next
  case (Suc m)
  show ?case
  proof (cases "even i")
    case True
    then have i0: "i mod 2 = 0" and s1: "Suc i mod 2 = 1" and sd: "Suc i div 2 = i div 2"
      by (auto simp: mod2_eq_if)
    have lt: "int (bitrev (Suc m) (i div 2)) < 2 ^ Suc m"
      using bitrev_less[of "Suc m" "i div 2"] by (metis of_nat_less_iff of_nat_numeral of_nat_power)
    have e1: "bitrev (Suc (Suc m)) i = bitrev (Suc m) (i div 2)"
      by (subst bitrev.simps) (simp add: i0 del: bitrev.simps power_Suc)
    have e2: "bitrev (Suc (Suc m)) (Suc i) = 2 ^ Suc m + bitrev (Suc m) (i div 2)"
      by (subst bitrev.simps) (simp add: s1 sd del: bitrev.simps power_Suc)
    show ?thesis unfolding e1 e2 using lt
      by (subst bitrev_while.simps) simp
  next
    case False
    then have i1: "i mod 2 = 1" and s0: "Suc i mod 2 = 0" and sd: "Suc i div 2 = Suc (i div 2)"
      by (auto simp: mod2_eq_if elim: oddE)
    have e1: "bitrev (Suc (Suc m)) i = 2 ^ Suc m + bitrev (Suc m) (i div 2)"
      by (subst bitrev.simps) (simp add: i1 del: bitrev.simps power_Suc)
    have e2: "bitrev (Suc (Suc m)) (Suc i) = bitrev (Suc m) (Suc (i div 2))"
      by (subst bitrev.simps) (simp add: s0 sd del: bitrev.simps power_Suc)
    have "Suc (i div 2) < 2 ^ Suc m" using Suc.prems(2) sd
      by (metis less_mult_imp_div_less mult.commute power_Suc)
    moreover have "m < 30" using Suc.prems(1) by simp
    ultimately obtain k j' where kj: "bitrev_while (2 ^ m) (int (bitrev (Suc m) (i div 2))) = Some (k, j')"
      "j' + k = int (bitrev (Suc m) (Suc (i div 2)))"
      using Suc.IH[of "i div 2"] by blast
    have sar: "sar1 (2 ^ Suc m) = 2 ^ m" using sar1_pow2[of m] Suc.prems(1) by simp
    have "bitrev_while (2 ^ Suc m) (int (bitrev (Suc (Suc m)) i)) = Some (k, j')"
      unfolding e1 by (subst bitrev_while.simps) (simp add: sar kj(1) del: power_Suc bitrev.simps)
    with kj(2) show ?thesis unfolding e2 by simp
  qed
qed

lemma partly_reversed_start: "partly_reversed m 0 xs xs"
  by (simp add: partly_reversed_def)

lemma partly_reversed_step:
  assumes pr: "partly_reversed m i orig cur" and len: "length orig = 2 ^ m" and i: "i < 2 ^ m"
  shows "partly_reversed m (Suc i) orig
           (if int i < int (bitrev m i) then swap cur (int i) (int (bitrev m i)) else cur)"
proof -
  let ?j = "bitrev m i"
  let ?cur' = "if int i < int ?j then swap cur (int i) (int ?j) else cur"
  have lc: "length cur = 2 ^ m" using pr len by (simp add: partly_reversed_def)
  have j: "?j < 2 ^ m" by (rule bitrev_less)
  have bj: "bitrev m ?j = i" using i by (rule bitrev_invol)
  have cur: "\<And>t. t < 2 ^ m \<Longrightarrow> cur ! t = (if t < i \<or> bitrev m t < i then orig ! bitrev m t else orig ! t)"
    using pr by (simp add: partly_reversed_def)
  have "length ?cur' = length orig" using lc len by (simp add: swap_def)
  moreover have "?cur' ! t = (if t < Suc i \<or> bitrev m t < Suc i then orig ! bitrev m t else orig ! t)"
    if t: "t < 2 ^ m" for t
  proof -
    have tb: "bitrev m t = i \<longleftrightarrow> t = ?j" using bitrev_invol[OF t] bj by auto
    consider (lt) "i < ?j" | (eq) "i = ?j" | (gt) "?j < i" by linarith
    then show ?thesis
    proof cases
      case lt
      then have c': "?cur' = cur[i := cur ! ?j, ?j := cur ! i]" by (simp add: swap_def)
      show ?thesis
      proof (cases "t = ?j")
        case True
        then show ?thesis using lt cur[OF i] bj j lc by (simp add: c' swap_def)
      next
        case False
        note tj = this
        show ?thesis
        proof (cases "t = i")
          case True
          then show ?thesis using lt cur[OF j] bj i lc tj by (simp add: c' swap_def)
        next
          case False
          then show ?thesis using tj tb cur[OF t] by (auto simp: c' swap_def less_Suc_eq)
        qed
      qed
    next
      case eq
      then have c': "?cur' = cur" by simp
      show ?thesis
      proof (cases "t = i")
        case True
        then show ?thesis using eq cur[OF i] by (simp add: c' swap_def)
      next
        case False
        then show ?thesis using eq tb cur[OF t] by (auto simp: c' swap_def less_Suc_eq)
      qed
    next
      case gt
      then have c': "?cur' = cur" by simp
      show ?thesis
      proof (cases "t = i")
        case True
        then show ?thesis using gt cur[OF i] by (simp add: c' swap_def)
      next
        case False
        note ti = this
        show ?thesis
        proof (cases "t = ?j")
          case True
          then show ?thesis using gt cur[OF j] bj by (simp add: c' swap_def)
        next
          case False
          then show ?thesis using ti tb cur[OF t] by (auto simp: c' swap_def less_Suc_eq)
        qed
      qed
    qed
  qed
  ultimately show ?thesis unfolding partly_reversed_def by blast
qed

lemma partly_reversed_done:
  assumes pr: "partly_reversed m (2 ^ m - 1) orig cur" and len: "length orig = 2 ^ m"
  shows "cur = bitrev_list m orig"
proof (rule nth_equalityI)
  show "length cur = length (bitrev_list m orig)"
    using pr by (simp add: partly_reversed_def bitrev_list_def)
next
  fix t assume "t < length cur"
  then have t: "t < 2 ^ m" using pr len by (simp add: partly_reversed_def)
  have cur: "cur ! t = (if t < 2 ^ m - 1 \<or> bitrev m t < 2 ^ m - 1 then orig ! bitrev m t else orig ! t)"
    using pr t by (simp add: partly_reversed_def)
  have "cur ! t = orig ! bitrev m t"
  proof (cases "t < 2 ^ m - 1")
    case True then show ?thesis using cur by simp
  next
    case False
    then have "t = 2 ^ m - 1" using t by simp
    then show ?thesis using cur bitrev_last[of m] by simp
  qed
  then show "cur ! t = bitrev_list m orig ! t"
    using t len by (simp add: bitrev_list_def)
qed

lemma bitrev_for_from:
  assumes m: "m \<le> 30"
    and lr: "length re0 = 2 ^ m" and li: "length im0 = 2 ^ m"
  shows "i < 2 ^ m \<Longrightarrow> partly_reversed m i re0 re \<Longrightarrow> partly_reversed m i im0 im \<Longrightarrow>
         bitrev_for (2 ^ m) (int i) (int (bitrev m i)) re im
           = Some (bitrev_list m re0, bitrev_list m im0)"
proof (induction "2 ^ m - 1 - i" arbitrary: i re im)
  case 0
  then have i: "i = 2 ^ m - 1" by simp
  have "\<not> int i < 2 ^ m - 1" unfolding i by (simp add: of_nat_diff)
  then have "bitrev_for (2 ^ m) (int i) (int (bitrev m i)) re im = Some (re, im)"
    by (subst bitrev_for.simps) simp
  moreover have "re = bitrev_list m re0" using "0.prems"(2) lr unfolding i by (rule partly_reversed_done)
  moreover have "im = bitrev_list m im0" using "0.prems"(3) li unfolding i by (rule partly_reversed_done)
  ultimately show ?case by simp
next
  case (Suc d)
  then have si: "Suc i < 2 ^ m" by simp
  then obtain m' where m': "m = Suc m'" by (cases m) auto
  have m30: "m' < 30" using m m' by simp
  have sar: "sar1 (2 ^ m) = 2 ^ m'" unfolding m' using m30 by (rule sar1_pow2)
  obtain k j' where kj: "bitrev_while (2 ^ m') (int (bitrev m i)) = Some (k, j')"
    "j' + k = int (bitrev m (Suc i))"
    using bitrev_while_step[OF m30, of i] si unfolding m' by blast
  have "int (Suc i) < int (2 ^ m)" using si by (simp only: of_nat_less_iff)
  then have lt: "int i < 2 ^ m - 1" by simp
  let ?re = "if int i < int (bitrev m i) then swap re (int i) (int (bitrev m i)) else re"
  let ?im = "if int i < int (bitrev m i) then swap im (int i) (int (bitrev m i)) else im"
  have "bitrev_for (2 ^ m) (int i) (int (bitrev m i)) re im
      = bitrev_for (2 ^ m) (int (Suc i)) (int (bitrev m (Suc i))) ?re ?im"
    by (subst bitrev_for.simps) (simp add: lt sar kj add.commute del: bitrev.simps power_Suc)
  also have "\<dots> = Some (bitrev_list m re0, bitrev_list m im0)"
  proof (rule Suc.hyps(1))
    show "d = 2 ^ m - 1 - Suc i" using Suc.hyps(2) by simp
    show "Suc i < 2 ^ m" by (rule si)
    show "partly_reversed m (Suc i) re0 ?re"
      using Suc.prems(2) lr Suc.prems(1) by (rule partly_reversed_step)
    show "partly_reversed m (Suc i) im0 ?im"
      using Suc.prems(3) li Suc.prems(1) by (rule partly_reversed_step)
  qed
  finally show ?case .
qed

lemma bitrev_for_correct:
  assumes m: "m \<le> 30" and lr: "length re = 2 ^ m" and li: "length im = 2 ^ m"
  shows "bitrev_for (2 ^ m) 0 0 re im = Some (bitrev_list m re, bitrev_list m im)"
proof -
  have b0: "bitrev m 0 = 0" by (induction m) auto
  have "bitrev_for (2 ^ m) (int 0) (int (bitrev m 0)) re im = Some (bitrev_list m re, bitrev_list m im)"
    using m lr li by (rule bitrev_for_from) (simp_all add: partly_reversed_start)
  then show ?thesis by (simp add: b0)
qed

lemma butterfly_j_unfold:
  "j < h \<Longrightarrow> butterfly_j a (int h) (int i) (int j) re im =
     (case butterfly_at (a * real j) (i + j) (i + j + h) (re, im) of
        (re', im') \<Rightarrow> butterfly_j a (int h) (int i) (int (Suc j)) re' im')"
  "\<not> j < h \<Longrightarrow> butterfly_j a (int h) (int i) (int j) re im = (re, im)"
proof -
  assume jh: "j < h"
  have n1: "nat (int i + int j) = i + j" by (simp add: nat_add_distrib)
  have n2: "nat (int i + int j + int h) = i + j + h" by (simp add: nat_add_distrib)
  have ne: "i + j + h \<noteq> i + j" using jh by simp
  show "butterfly_j a (int h) (int i) (int j) re im =
     (case butterfly_at (a * real j) (i + j) (i + j + h) (re, im) of
        (re', im') \<Rightarrow> butterfly_j a (int h) (int i) (int (Suc j)) re' im')"
    using jh ne
    by (subst butterfly_j.simps)
       (simp add: Let_def butterfly_at_def n1 n2 add.commute[of 1] del: butterfly_j.simps)
next
  assume "\<not> j < h"
  then show "butterfly_j a (int h) (int i) (int j) re im = (re, im)"
    by (subst butterfly_j.simps) simp
qed

lemma butterfly_at_spec:
  assumes "M < N" "N < L" "length re = L" "length im = L"
    and "butterfly_at angle M N (re, im) = (re', im')"
  shows "length re' = L" "length im' = L"
    "cplx re' im' t = (if t = M then cplx re im M + cis angle * cplx re im N
                       else if t = N then cplx re im M - cis angle * cplx re im N
                       else cplx re im t)"
proof -
  have re': "re' = re[N := re ! M - (re ! N * cos angle - im ! N * sin angle),
                      M := re ! M + (re ! N * cos angle - im ! N * sin angle)]"
    and im': "im' = im[N := im ! M - (re ! N * sin angle + im ! N * cos angle),
                      M := im ! M + (re ! N * sin angle + im ! N * cos angle)]"
    using assms(5) by (simp_all add: butterfly_at_def Let_def)
  show "length re' = L" "length im' = L" using assms(3,4) by (simp_all add: re' im')
  show "cplx re' im' t = (if t = M then cplx re im M + cis angle * cplx re im N
                       else if t = N then cplx re im M - cis angle * cplx re im N
                       else cplx re im t)"
    using assms(1-4)
    by (auto simp: re' im' cplx_def complex_eq_iff nth_list_update algebra_simps)
qed

lemma butterfly_j_spec:
  "j0 \<le> h \<Longrightarrow> i + 2 * h \<le> L \<Longrightarrow> length re = L \<Longrightarrow> length im = L \<Longrightarrow>
   butterfly_j a (int h) (int i) (int j0) re im = (re', im') \<Longrightarrow>
   length re' = L \<and> length im' = L \<and> (\<forall>t. cplx re' im' t = after_j a h i j0 (cplx re im) t)"
proof (induction "h - j0" arbitrary: j0 re im)
  case 0
  then have "\<not> j0 < h" by simp
  then have "butterfly_j a (int h) (int i) (int j0) re im = (re, im)" by (rule butterfly_j_unfold(2))
  with "0.prems" have eq: "re' = re" "im' = im" by simp_all
  have "j0 = h" using 0 by simp
  then show ?case using "0.prems" by (auto simp: eq after_j_def)
next
  case (Suc d)
  then have jh: "j0 < h" by simp
  obtain re1 im1 where b: "butterfly_at (a * real j0) (i + j0) (i + j0 + h) (re, im) = (re1, im1)"
    by (cases "butterfly_at (a * real j0) (i + j0) (i + j0 + h) (re, im)") auto
  have MN: "i + j0 < i + j0 + h" "i + j0 + h < L" using jh Suc.prems(2) by simp_all
  note one = butterfly_at_spec[OF MN Suc.prems(3,4) b]
  have rest: "butterfly_j a (int h) (int i) (int (Suc j0)) re1 im1 = (re', im')"
    using Suc.prems(5) butterfly_j_unfold(1)[OF jh, of a i re im] b by simp
  have IH: "length re' = L \<and> length im' = L \<and> (\<forall>t. cplx re' im' t = after_j a h i (Suc j0) (cplx re1 im1) t)"
    using Suc.hyps(2) jh Suc.prems(2) one(1,2) rest by (intro Suc.hyps(1)) simp_all
  have "after_j a h i (Suc j0) (cplx re1 im1) t = after_j a h i j0 (cplx re im) t" for t
  proof -
    consider (M) "t = i + j0" | (N) "t = i + j0 + h" | (other) "t \<noteq> i + j0" "t \<noteq> i + j0 + h"
      by blast
    then show ?thesis
    proof cases
      case M
      then show ?thesis using jh unfolding after_j_def one(3) by simp
    next
      case N
      then show ?thesis using jh unfolding after_j_def one(3) by (simp add: add.commute add.left_commute)
    next
      case other
      then show ?thesis using jh unfolding after_j_def one(3) by auto
    qed
  qed
  with IH show ?case by simp
qed

lemma after_j_outside: "i + 2 * h \<le> t \<Longrightarrow> after_j a h i 0 Z t = Z t"
  "t < i \<Longrightarrow> after_j a h i 0 Z t = Z t"
  by (simp_all add: after_j_def)

lemma after_j_inside:
  assumes "b * (2 * h) \<le> t" "t < Suc b * (2 * h)"
  shows "after_j a h (b * (2 * h)) 0 Z t = pass a h Z t"
proof -
  obtain q where q: "t = b * (2 * h) + q" using assms(1) by (metis le_Suc_ex)
  then have qh: "q < 2 * h" using assms(2) by simp
  have md: "t mod (2 * h) = q" unfolding q using qh by simp
  show ?thesis unfolding after_j_def pass_def md unfolding q using qh by auto
qed

lemma pass_cong_block:
  assumes "\<And>s. Suc b * (2 * h) \<le> s \<Longrightarrow> Z1 s = Z s" and "Suc b * (2 * h) \<le> t" and "0 < h"
  shows "pass a h Z1 t = pass a h Z t"
proof -
  have d: "Suc b \<le> t div (2 * h)" using assms(2,3)
    by (metis div_le_mono div_mult_self_is_m mult_2 add_gr_0)
  have "t = t div (2 * h) * (2 * h) + t mod (2 * h)" using div_mult_mod_eq[of t "2 * h"] by simp
  moreover have "Suc b * (2 * h) \<le> t div (2 * h) * (2 * h)" using d by (rule mult_le_mono1)
  ultimately have "t mod (2 * h) \<ge> h \<Longrightarrow> Suc b * (2 * h) \<le> t - h" by linarith
  then show ?thesis using assms(1,2) unfolding pass_def by (auto simp: not_less)
qed

lemma butterfly_i_spec:
  assumes h: "0 < h"
  shows "b0 \<le> c \<Longrightarrow> length re = c * (2 * h) \<Longrightarrow> length im = c * (2 * h) \<Longrightarrow>
    \<exists>re' im'. butterfly_i (int (c * (2 * h))) (int (2 * h)) (int h) a (int (b0 * (2 * h))) re im = Some (re', im')
      \<and> length re' = c * (2 * h) \<and> length im' = c * (2 * h)
      \<and> (\<forall>t. cplx re' im' t = (if b0 * (2 * h) \<le> t \<and> t < c * (2 * h) then pass a h (cplx re im) t else cplx re im t))"
proof (induction "c - b0" arbitrary: b0 re im)
  case 0
  then have b0: "b0 = c" by simp
  have "butterfly_i (int (c * (2 * h))) (int (2 * h)) (int h) a (int (b0 * (2 * h))) re im = Some (re, im)"
    unfolding b0 by (subst butterfly_i.simps) simp
  then show ?case using 0 by (auto simp: b0)
next
  case (Suc d)
  then have bc: "b0 < c" by simp
  let ?i = "b0 * (2 * h)" and ?n = "c * (2 * h)"
  have "Suc b0 * (2 * h) \<le> ?n" using bc by (intro mult_le_mono1) simp
  then have fit: "?i + 2 * h \<le> ?n" by simp
  then have lt: "int ?i < int ?n" using h by linarith
  obtain re1 im1 where j: "butterfly_j a (int h) (int ?i) (int 0) re im = (re1, im1)"
    by (cases "butterfly_j a (int h) (int ?i) (int 0) re im") auto
  have js: "length re1 = ?n" "length im1 = ?n" "\<And>t. cplx re1 im1 t = after_j a h ?i 0 (cplx re im) t"
    using butterfly_j_spec[OF _ fit Suc.prems(2,3) j] by auto
  have nxt: "int ?i + int (2 * h) = int (Suc b0 * (2 * h))" by simp
  have unf: "butterfly_i (int ?n) (int (2 * h)) (int h) a (int ?i) re im
      = butterfly_i (int ?n) (int (2 * h)) (int h) a (int (Suc b0 * (2 * h))) re1 im1"
    using lt j by (subst butterfly_i.simps) (simp only: nxt if_True, simp)
  have "d = c - Suc b0" "Suc b0 \<le> c" using Suc.hyps(2) bc by simp_all
  from Suc.hyps(1)[OF this js(1,2)] obtain re' im' where
    r: "butterfly_i (int ?n) (int (2 * h)) (int h) a (int (Suc b0 * (2 * h))) re1 im1 = Some (re', im')"
      "length re' = ?n" "length im' = ?n"
      "\<And>t. cplx re' im' t = (if Suc b0 * (2 * h) \<le> t \<and> t < ?n then pass a h (cplx re1 im1) t else cplx re1 im1 t)"
    by blast
  have "cplx re' im' t = (if ?i \<le> t \<and> t < ?n then pass a h (cplx re im) t else cplx re im t)" for t
  proof -
    consider (above) "Suc b0 * (2 * h) \<le> t" "t < ?n" | (beyond) "?n \<le> t"
      | (inside) "?i \<le> t" "t < Suc b0 * (2 * h)" | (below) "t < ?i"
      by linarith
    then show ?thesis
    proof cases
      case above
      have "pass a h (cplx re1 im1) t = pass a h (cplx re im) t"
        using above(1) h by (intro pass_cong_block[where b = b0]) (simp_all add: js(3) after_j_outside(1))
      then show ?thesis using above r(4)[of t] by simp
    next
      case beyond
      then have "?i + 2 * h \<le> t" using fit by simp
      then show ?thesis using beyond r(4)[of t] by (simp add: js(3) after_j_outside(1))
    next
      case inside
      then have "t < ?n" using fit by simp
      then show ?thesis using inside r(4)[of t] by (simp add: js(3) after_j_inside)
    next
      case below
      then show ?thesis using r(4)[of t] by (simp add: js(3) after_j_outside(2))
    qed
  qed
  with r(1-3) unf show ?case by simp
qed

lemma root_pow_self: "0 < n \<Longrightarrow> unity_root n ^ n = 1"
proof -
  assume "0 < n"
  then have "real n * (- 2 * pi / real n) = - (2 * pi)" by simp
  then have "unity_root n ^ n = cis (- (2 * pi))" unfolding unity_root_def DeMoivre by simp
  also have "\<dots> = 1" by (simp add: cis_cnj[symmetric])
  finally show ?thesis .
qed

lemma root_double_sq: "0 < n \<Longrightarrow> unity_root (2 * n) ^ 2 = unity_root n"
proof -
  assume "0 < n"
  then have "real 2 * (- 2 * pi / real (2 * n)) = - 2 * pi / real n" by simp
  then show ?thesis unfolding unity_root_def DeMoivre by simp
qed

lemma root_double_half: "0 < n \<Longrightarrow> unity_root (2 * n) ^ n = - 1"
proof -
  assume "0 < n"
  then have "real n * (- 2 * pi / real (2 * n)) = - pi" by simp
  then have "unity_root (2 * n) ^ n = cis (- pi)" unfolding unity_root_def DeMoivre by simp
  also have "\<dots> = - 1" by (simp add: cis_cnj[symmetric])
  finally show ?thesis .
qed

lemma twiddle_root: "cis (- 2 * pi / real n * real j) = unity_root n ^ j"
  unfolding unity_root_def DeMoivre by (simp add: mult.commute)

lemma root_pow_cis: "0 < n \<Longrightarrow> unity_root n ^ (k * j) = cis (- 2 * pi * real k * real j / real n)"
  unfolding unity_root_def DeMoivre by (simp add: field_simps)

lemma stage_0: "stage 0 B t = B t"
  by (simp add: stage_def)

lemma sum_split_double: "(\<Sum>p<2 * h. f p) = (\<Sum>p<h. f p) + (\<Sum>p<h. f (h + p))" for f :: "nat \<Rightarrow> complex"
proof -
  have "(\<Sum>p<h + h. f p) = (\<Sum>p = 0..<h. f p) + (\<Sum>p = h..<h + h. f p)"
    by (simp add: lessThan_atLeast0 sum.atLeastLessThan_concat)
  also have "(\<Sum>p = h..<h + h. f p) = (\<Sum>p = 0..<h. f (p + h))"
    using sum.shift_bounds_nat_ivl[of f 0 h h] by simp
  finally show ?thesis by (simp add: mult_2 lessThan_atLeast0 add.commute)
qed

lemma block_div_mod:
  fixes h :: nat
  assumes "q < h"
  shows "(c * (2 * h) + q) div h = 2 * c" "(c * (2 * h) + q) mod h = q"
    "(c * (2 * h) + h + q) div h = 2 * c + 1" "(c * (2 * h) + h + q) mod h = q"
    "(c * (2 * h) + q) mod (2 * h) = q" "(c * (2 * h) + q) div (2 * h) = c"
    "(c * (2 * h) + h + q) mod (2 * h) = h + q" "(c * (2 * h) + h + q) div (2 * h) = c"
proof -
  have e1: "c * (2 * h) + q = (2 * c) * h + q" by simp
  have e2: "c * (2 * h) + h + q = (2 * c + 1) * h + q" by simp
  have e3: "c * (2 * h) + h + q = c * (2 * h) + (h + q)" by simp
  have q2: "q < 2 * h" "h + q < 2 * h" using assms by simp_all
  show "(c * (2 * h) + q) div h = 2 * c" unfolding e1 using assms by simp
  show "(c * (2 * h) + q) mod h = q" unfolding e1 using assms by simp
  have hp: "0 < h" using assms by simp
  show "(c * (2 * h) + h + q) div h = 2 * c + 1" unfolding e2 using assms hp
    by (subst div_mult_self3) simp_all
  show "(c * (2 * h) + h + q) mod h = q" unfolding e2 using assms
    by (subst mod_mult_self3) simp_all
  show "(c * (2 * h) + q) mod (2 * h) = q" using q2(1) by simp
  show "(c * (2 * h) + q) div (2 * h) = c" using q2(1) by simp
  show "(c * (2 * h) + h + q) mod (2 * h) = h + q" unfolding e3 using q2(2) by simp
  show "(c * (2 * h) + h + q) div (2 * h) = c" unfolding e3 using q2(2) by simp
qed

lemma stage_split:
  "stage (Suc s) B u =
      (\<Sum>p<2 ^ s. B (u div (2 * 2 ^ s) * (2 * 2 ^ s) + p) * unity_root (2 ^ s) ^ (u mod (2 * 2 ^ s) * bitrev s p))
    + unity_root (2 * 2 ^ s) ^ (u mod (2 * 2 ^ s))
      * (\<Sum>p<2 ^ s. B (u div (2 * 2 ^ s) * (2 * 2 ^ s) + 2 ^ s + p) * unity_root (2 ^ s) ^ (u mod (2 * 2 ^ s) * bitrev s p))"
proof -
  let ?h = "2 ^ s :: nat"
  let ?w = "unity_root (2 * ?h)"
  have hpos: "0 < ?h" by simp
  have w2: "?w ^ (2 * k) = unity_root ?h ^ k" for k
    by (simp add: power_mult root_double_sq[OF hpos])
  have a: "bitrev (Suc s) p = 2 * bitrev s p" if "p < ?h" for p
    using bitrev_top[of 0 p s] that by simp
  have b: "bitrev (Suc s) (?h + p) = 2 * bitrev s p + 1" if "p < ?h" for p
    using bitrev_top[of 1 p s] that by simp
  have "stage (Suc s) B u = (\<Sum>p<2 * ?h. B (u div (2 * ?h) * (2 * ?h) + p) * ?w ^ (u mod (2 * ?h) * bitrev (Suc s) p))"
    by (simp add: stage_def del: bitrev.simps)
  also have "\<dots> = (\<Sum>p<?h. B (u div (2 * ?h) * (2 * ?h) + p) * ?w ^ (u mod (2 * ?h) * bitrev (Suc s) p))
      + (\<Sum>p<?h. B (u div (2 * ?h) * (2 * ?h) + (?h + p)) * ?w ^ (u mod (2 * ?h) * bitrev (Suc s) (?h + p)))"
    by (rule sum_split_double)
  also have "(\<Sum>p<?h. B (u div (2 * ?h) * (2 * ?h) + p) * ?w ^ (u mod (2 * ?h) * bitrev (Suc s) p))
      = (\<Sum>p<?h. B (u div (2 * ?h) * (2 * ?h) + p) * unity_root ?h ^ (u mod (2 * ?h) * bitrev s p))"
  proof (rule sum.cong[OF refl])
    fix p assume "p \<in> {..<?h}"
    then have p: "p < ?h" by simp
    have "u mod (2 * ?h) * bitrev (Suc s) p = 2 * (u mod (2 * ?h) * bitrev s p)"
      unfolding a[OF p] by simp
    then show "B (u div (2 * ?h) * (2 * ?h) + p) * ?w ^ (u mod (2 * ?h) * bitrev (Suc s) p)
        = B (u div (2 * ?h) * (2 * ?h) + p) * unity_root ?h ^ (u mod (2 * ?h) * bitrev s p)"
      by (simp only: w2)
  qed
  also have "(\<Sum>p<?h. B (u div (2 * ?h) * (2 * ?h) + (?h + p)) * ?w ^ (u mod (2 * ?h) * bitrev (Suc s) (?h + p)))
      = ?w ^ (u mod (2 * ?h)) * (\<Sum>p<?h. B (u div (2 * ?h) * (2 * ?h) + ?h + p) * unity_root ?h ^ (u mod (2 * ?h) * bitrev s p))"
    unfolding sum_distrib_left
  proof (rule sum.cong[OF refl])
    fix p assume "p \<in> {..<?h}"
    then have p: "p < ?h" by simp
    have "u mod (2 * ?h) * bitrev (Suc s) (?h + p) = 2 * (u mod (2 * ?h) * bitrev s p) + u mod (2 * ?h)"
      unfolding b[OF p] by (simp add: algebra_simps)
    then have "?w ^ (u mod (2 * ?h) * bitrev (Suc s) (?h + p)) = unity_root ?h ^ (u mod (2 * ?h) * bitrev s p) * ?w ^ (u mod (2 * ?h))"
      by (simp only: power_add w2)
    then show "B (u div (2 * ?h) * (2 * ?h) + (?h + p)) * ?w ^ (u mod (2 * ?h) * bitrev (Suc s) (?h + p))
        = ?w ^ (u mod (2 * ?h)) * (B (u div (2 * ?h) * (2 * ?h) + ?h + p) * unity_root ?h ^ (u mod (2 * ?h) * bitrev s p))"
      by (simp add: add.assoc)
  qed
  finally show ?thesis .
qed

lemma stage_Suc:
  "pass (- 2 * pi / real (2 * 2 ^ s)) (2 ^ s) (stage s B) t = stage (Suc s) B t"
proof -
  let ?h = "2 ^ s :: nat"
  let ?w = "unity_root (2 * ?h)"
  let ?c = "t div (2 * ?h)"
  let ?E = "\<lambda>q. \<Sum>p<?h. B (?c * (2 * ?h) + p) * unity_root ?h ^ (q * bitrev s p)"
  let ?O = "\<lambda>q. \<Sum>p<?h. B (?c * (2 * ?h) + ?h + p) * unity_root ?h ^ (q * bitrev s p)"
  have hpos: "0 < ?h" by simp
  have t: "t = ?c * (2 * ?h) + t mod (2 * ?h)" by (rule div_mult_mod_eq[symmetric])
  have tw: "cis (- 2 * pi / real (2 * ?h) * real k) = ?w ^ k" for k by (rule twiddle_root)
  show ?thesis
  proof (cases "t mod (2 * ?h) < ?h")
    case True
    define q where "q = t mod (2 * ?h)"
    have qh: "q < ?h" using True by (simp add: q_def)
    have tq: "t = ?c * (2 * ?h) + q" using t by (simp add: q_def)
    have th: "t + ?h = ?c * (2 * ?h) + ?h + q" using tq by simp
    have s1: "stage s B t = ?E q"
      unfolding stage_def by (subst (1 2) tq) (simp only: block_div_mod[OF qh], simp add: algebra_simps)
    have s2: "stage s B (t + ?h) = ?O q"
      unfolding stage_def th by (simp only: block_div_mod[OF qh], simp add: algebra_simps)
    have "stage (Suc s) B t = ?E q + ?w ^ q * ?O q"
      unfolding stage_split[of s B t] q_def ..
    moreover have "pass (- 2 * pi / real (2 * ?h)) ?h (stage s B) t = ?E q + ?w ^ q * ?O q"
      using True unfolding pass_def by (simp only: if_True s1 s2 tw q_def[symmetric])
    ultimately show ?thesis by simp
  next
    case False
    define q where "q = t mod (2 * ?h) - ?h"
    have lt: "t mod (2 * ?h) < 2 * ?h" by simp
    have qh: "q < ?h" unfolding q_def using lt False by linarith
    have mq: "t mod (2 * ?h) = ?h + q" unfolding q_def using lt False by linarith
    have tq: "t = ?c * (2 * ?h) + ?h + q" using t mq by simp
    have th: "t - ?h = ?c * (2 * ?h) + q" using tq by simp
    have s1: "stage s B (t - ?h) = ?E q"
      unfolding stage_def th by (simp only: block_div_mod[OF qh], simp add: algebra_simps)
    have s2: "stage s B t = ?O q"
      unfolding stage_def by (subst (1 2) tq) (simp only: block_div_mod[OF qh], simp add: algebra_simps)
    have r1: "unity_root ?h ^ ((?h + q) * k) = unity_root ?h ^ (q * k)" for k
      by (simp add: add_mult_distrib power_add power_mult root_pow_self[OF hpos])
    have r2: "?w ^ (?h + q) = - (?w ^ q)"
      by (simp add: power_add root_double_half[OF hpos])
    have "stage (Suc s) B t = ?E q - ?w ^ q * ?O q"
      unfolding stage_split[of s B t] mq r1 r2 by simp
    moreover have "pass (- 2 * pi / real (2 * ?h)) ?h (stage s B) t = ?E q - ?w ^ q * ?O q"
      using False unfolding pass_def by (simp only: if_False s1 s2 tw q_def[symmetric])
    ultimately show ?thesis by simp
  qed
qed

lemma pass_cong_range:
  assumes eq: "\<And>u. u < c * (2 * h) \<Longrightarrow> Z1 u = Z u" and t: "t < c * (2 * h)" and h: "0 < h"
  shows "pass a h Z1 t = pass a h Z t"
proof -
  define D R where "D = t div (2 * h) * (2 * h)" and "R = t mod (2 * h)"
  have tt: "t = D + R" unfolding D_def R_def by (rule div_mult_mod_eq[symmetric])
  have "t div (2 * h) < c" using t h by (simp add: less_mult_imp_div_less)
  then have "Suc (t div (2 * h)) * (2 * h) \<le> c * (2 * h)" by (intro mult_le_mono1) simp
  then have "D + 2 * h \<le> c * (2 * h)" by (simp add: D_def)
  then have "R < h \<Longrightarrow> t + h < c * (2 * h)" using tt by linarith
  moreover have "t - h < c * (2 * h)" using t by simp
  ultimately show ?thesis using t unfolding pass_def R_def by (auto simp: eq)
qed

lemma butterfly_i_Some_pos:
  assumes "butterfly_i n len h a i re im = Some y"
  shows "\<not> (len \<le> 0 \<and> i < n)"
proof (rule butterfly_i.raw_induct[where P = "\<lambda>n len h a i re im y. \<not> (len \<le> 0 \<and> i < n)", OF _ assms], goal_cases)
  case (1 f n len h a i re im y)
  show ?case
  proof
    assume a: "len \<le> 0 \<and> i < n"
    obtain re' im' where j: "butterfly_j a h i 0 re im = (re', im')"
      by (cases "butterfly_j a h i 0 re im") auto
    from 1(2) a j have "f n len h a (i + len) re' im' = Some y" by simp
    then have "\<not> (len \<le> 0 \<and> i + len < n)" by (rule 1(1))
    with a show False by simp
  qed
qed

lemma butterfly_i_diverges: "len \<le> 0 \<Longrightarrow> i < n \<Longrightarrow> butterfly_i n len h a i re im = None"
  using butterfly_i_Some_pos[of n len h a i re im] by (cases "butterfly_i n len h a i re im") auto

lemma butterfly_len_diverges: "len \<le> 0 \<Longrightarrow> 0 < n \<Longrightarrow> butterfly_len n len re im = None"
  by (subst butterfly_len.simps) (simp add: butterfly_i_diverges)

lemma shl1_overflow: "shl1 (2 ^ 30) = - 2147483648"
  by (simp add: shl1_def toInt32_def)

lemma butterfly_len_pass:
  assumes m: "m \<le> 30" and sm: "s < m" and lr: "length re = 2 ^ m" and li: "length im = 2 ^ m"
  shows "\<exists>re1 im1. butterfly_len (2 ^ m) (2 ^ Suc s) re im = butterfly_len (2 ^ m) (shl1 (2 ^ Suc s)) re1 im1
      \<and> length re1 = 2 ^ m \<and> length im1 = 2 ^ m
      \<and> (\<forall>t<2 ^ m. cplx re1 im1 t = pass (- 2 * pi / real (2 * 2 ^ s)) (2 ^ s) (cplx re im) t)"
proof -
  let ?h = "2 ^ s :: nat" and ?c = "2 ^ (m - Suc s) :: nat"
  let ?a = "- 2 * pi / real (2 * ?h)"
  have "(2::nat) ^ m = 2 ^ (m - Suc s + Suc s)" using sm by simp
  then have n: "(2::nat) ^ m = ?c * (2 * ?h)" unfolding power_add by simp
  then have ni: "(2::int) ^ m = int (?c * (2 * ?h))"
    by (metis of_nat_numeral of_nat_power)
  have li': "(2::int) ^ Suc s = int (2 * ?h)" by simp
  have le: "(2::int) ^ Suc s \<le> 2 ^ m" using sm by (intro power_increasing) auto
  have sar: "sar1 (2 ^ Suc s) = int ?h" using sar1_pow2[of s] sm m by simp
  have ang: "- 2 * pi / real_of_int (2 ^ Suc s) = ?a" by simp
  obtain re1 im1 where
    b: "butterfly_i (int (?c * (2 * ?h))) (int (2 * ?h)) (int ?h) ?a (int (0 * (2 * ?h))) re im = Some (re1, im1)"
      "length re1 = ?c * (2 * ?h)" "length im1 = ?c * (2 * ?h)"
      "\<And>t. cplx re1 im1 t = (if 0 * (2 * ?h) \<le> t \<and> t < ?c * (2 * ?h) then pass ?a ?h (cplx re im) t else cplx re im t)"
    using butterfly_i_spec[of ?h 0 ?c re im ?a] lr li unfolding n by auto
  have unf: "butterfly_len (2 ^ m) (2 ^ Suc s) re im = butterfly_len (2 ^ m) (shl1 (2 ^ Suc s)) re1 im1"
    apply (subst butterfly_len.simps)
    apply (simp only: le if_True sar ang)
    apply (simp only: ni li')
    using b(1) apply simp
    done
  have "cplx re1 im1 t = pass ?a ?h (cplx re im) t" if "t < 2 ^ m" for t
    using b(4)[of t] that n by simp
  with unf b(2,3) n show ?thesis by auto
qed

lemma butterfly_len_spec:
  assumes m: "m \<le> 29"
  shows "s \<le> m \<Longrightarrow> length re = 2 ^ m \<Longrightarrow> length im = 2 ^ m \<Longrightarrow>
     (\<And>t. t < 2 ^ m \<Longrightarrow> cplx re im t = stage s B t) \<Longrightarrow>
     \<exists>re' im'. butterfly_len (2 ^ m) (2 ^ Suc s) re im = Some (re', im')
       \<and> length re' = 2 ^ m \<and> length im' = 2 ^ m
       \<and> (\<forall>t<2 ^ m. cplx re' im' t = stage m B t)"
proof (induction "m - s" arbitrary: s re im)
  case 0
  then have sm: "s = m" by simp
  have "\<not> (2::int) ^ Suc m \<le> 2 ^ m" by simp
  then have "butterfly_len (2 ^ m) (2 ^ Suc s) re im = Some (re, im)"
    unfolding sm by (subst butterfly_len.simps) (simp only: if_False)
  then show ?case using "0.prems" sm by auto
next
  case (Suc d)
  then have sm: "s < m" by simp
  let ?h = "2 ^ s :: nat" and ?c = "2 ^ (m - Suc s) :: nat"
  let ?a = "- 2 * pi / real (2 * ?h)"
  have "(2::nat) ^ m = 2 ^ (m - Suc s + Suc s)" using sm by simp
  then have n: "(2::nat) ^ m = ?c * (2 * ?h)" unfolding power_add by simp
  have m30: "m \<le> 30" using m by simp
  obtain re1 im1 where
    p: "butterfly_len (2 ^ m) (2 ^ Suc s) re im = butterfly_len (2 ^ m) (shl1 (2 ^ Suc s)) re1 im1"
      "length re1 = 2 ^ m" "length im1 = 2 ^ m"
      "\<And>t. t < 2 ^ m \<Longrightarrow> cplx re1 im1 t = pass ?a ?h (cplx re im) t"
    using butterfly_len_pass[OF m30 sm Suc.prems(2,3)] by blast
  have shl: "shl1 (2 ^ Suc s) = 2 ^ Suc (Suc s)" using shl1_pow2[of "Suc s"] sm m by simp
  have st: "cplx re1 im1 t = stage (Suc s) B t" if "t < 2 ^ m" for t
  proof -
    have "cplx re1 im1 t = pass ?a ?h (cplx re im) t" by (rule p(4)[OF that])
    also have "\<dots> = pass ?a ?h (stage s B) t"
      using Suc.prems(4) that unfolding n by (intro pass_cong_range[where c = ?c]) simp_all
    also have "\<dots> = stage (Suc s) B t" by (rule stage_Suc)
    finally show ?thesis .
  qed
  have "\<exists>re' im'. butterfly_len (2 ^ m) (2 ^ Suc (Suc s)) re1 im1 = Some (re', im')
       \<and> length re' = 2 ^ m \<and> length im' = 2 ^ m
       \<and> (\<forall>t<2 ^ m. cplx re' im' t = stage m B t)"
  proof (rule Suc.hyps(1))
    show "d = m - Suc s" using Suc.hyps(2) by simp
    show "Suc s \<le> m" using sm by simp
    show "length re1 = 2 ^ m" "length im1 = 2 ^ m" by (rule p(2), rule p(3))
    show "\<And>t. t < 2 ^ m \<Longrightarrow> cplx re1 im1 t = stage (Suc s) B t" by (rule st)
  qed
  then show ?case unfolding p(1) shl .
qed

lemma stage_full:
  assumes "t < 2 ^ m"
  shows "stage m (\<lambda>u. Z (bitrev m u)) t = dft (2 ^ m) Z t"
proof -
  have "stage m (\<lambda>u. Z (bitrev m u)) t = (\<Sum>p<2 ^ m. Z (bitrev m p) * unity_root (2 ^ m) ^ (t * bitrev m p))"
    using assms by (simp add: stage_def)
  also have "\<dots> = (\<Sum>r<2 ^ m. Z r * unity_root (2 ^ m) ^ (t * r))"
    by (rule sum.reindex_bij_betw[OF bitrev_bij, where g = "\<lambda>r. Z r * unity_root (2 ^ m) ^ (t * r)"])
  also have "\<dots> = dft (2 ^ m) Z t"
    unfolding dft_def by (rule sum.cong[OF refl]) (simp add: root_pow_cis)
  finally show ?thesis .
qed

lemma cplx_bitrev_list:
  "length re = 2 ^ m \<Longrightarrow> length im = 2 ^ m \<Longrightarrow> t < 2 ^ m \<Longrightarrow>
   cplx (bitrev_list m re) (bitrev_list m im) t = cplx re im (bitrev m t)"
  by (simp add: cplx_def bitrev_list_def)

lemma forward_correct:
  assumes m: "m \<le> 29" and lr: "length re = 2 ^ m" and li: "length im = 2 ^ m"
  shows "\<exists>re' im'. forward (new_FFT (2 ^ m)) re im = Some (re', im')
      \<and> length re' = 2 ^ m \<and> length im' = 2 ^ m
      \<and> (\<forall>k<2 ^ m. cplx re' im' k = dft (2 ^ m) (cplx re im) k)"
proof -
  have br: "bitrev_for (2 ^ m) 0 0 re im = Some (bitrev_list m re, bitrev_list m im)"
    using m lr li by (intro bitrev_for_correct) simp_all
  have "\<exists>re' im'. butterfly_len (2 ^ m) (2 ^ Suc 0) (bitrev_list m re) (bitrev_list m im) = Some (re', im')
       \<and> length re' = 2 ^ m \<and> length im' = 2 ^ m
       \<and> (\<forall>t<2 ^ m. cplx re' im' t = stage m (\<lambda>u. cplx re im (bitrev m u)) t)"
    using m lr li
    by (intro butterfly_len_spec) (simp_all add: stage_0 cplx_bitrev_list, simp_all add: bitrev_list_def)
  then obtain re' im' where
    r: "butterfly_len (2 ^ m) 2 (bitrev_list m re) (bitrev_list m im) = Some (re', im')"
      "length re' = 2 ^ m" "length im' = 2 ^ m"
      "\<And>t. t < 2 ^ m \<Longrightarrow> cplx re' im' t = stage m (\<lambda>u. cplx re im (bitrev m u)) t"
    by auto
  have "forward (new_FFT (2 ^ m)) re im = Some (re', im')"
    by (simp add: forward_def new_FFT_def br r(1))
  moreover have "cplx re' im' k = dft (2 ^ m) (cplx re im) k" if "k < 2 ^ m" for k
    using r(4)[OF that] stage_full[OF that, of "cplx re im"] by simp
  ultimately show ?thesis using r(2,3) by blast
qed

lemma butterfly_len_reach:
  assumes m: "m \<le> 30"
  shows "s < m \<Longrightarrow> length re = 2 ^ m \<Longrightarrow> length im = 2 ^ m \<Longrightarrow>
    \<exists>re' im'. butterfly_len (2 ^ m) (2 ^ Suc s) re im = butterfly_len (2 ^ m) (shl1 (2 ^ m)) re' im'"
proof (induction "m - Suc s" arbitrary: s re im)
  case 0
  then have e: "Suc s = m" by simp
  show ?case using butterfly_len_pass[OF m "0.prems"] unfolding e by blast
next
  case (Suc d)
  then have s2: "Suc s < m" by simp
  obtain re1 im1 where p: "butterfly_len (2 ^ m) (2 ^ Suc s) re im = butterfly_len (2 ^ m) (shl1 (2 ^ Suc s)) re1 im1"
    "length re1 = 2 ^ m" "length im1 = 2 ^ m"
    using butterfly_len_pass[OF m Suc.prems] by blast
  have shl: "shl1 (2 ^ Suc s) = 2 ^ Suc (Suc s)" using shl1_pow2[of "Suc s"] s2 m by simp
  have "\<exists>re' im'. butterfly_len (2 ^ m) (2 ^ Suc (Suc s)) re1 im1 = butterfly_len (2 ^ m) (shl1 (2 ^ m)) re' im'"
    using Suc.hyps(2) s2 p(2,3) by (intro Suc.hyps(1)) simp_all
  then show ?case unfolding p(1) shl .
qed

lemma forward_diverges:
  assumes m: "m = 30" and lr: "length re = 2 ^ m" and li: "length im = 2 ^ m"
  shows "forward (new_FFT (2 ^ m)) re im = None"
proof -
  have br: "bitrev_for (2 ^ m) 0 0 re im = Some (bitrev_list m re, bitrev_list m im)"
    using lr li m by (intro bitrev_for_correct) simp_all
  have "\<exists>re' im'. butterfly_len (2 ^ m) (2 ^ Suc 0) (bitrev_list m re) (bitrev_list m im)
       = butterfly_len (2 ^ m) (shl1 (2 ^ m)) re' im'"
    using lr li m by (intro butterfly_len_reach) (simp_all add: bitrev_list_def)
  then obtain re' im' where
    "butterfly_len (2 ^ m) 2 (bitrev_list m re) (bitrev_list m im)
       = butterfly_len (2 ^ m) (shl1 (2 ^ m)) re' im'"
    by auto
  moreover have "shl1 (2 ^ m) = - 2147483648" unfolding m by (rule shl1_overflow)
  moreover have "butterfly_len (2 ^ m) (- 2147483648) re' im' = None"
    by (rule butterfly_len_diverges) simp_all
  ultimately have "butterfly_len (2 ^ m) 2 (bitrev_list m re) (bitrev_list m im) = None" by simp
  then show ?thesis by (simp add: forward_def new_FFT_def br)
qed

lemma fold_update_length:
  "length (fold (\<lambda>i xs. xs[i := f (xs ! i)]) [0..<n] xs) = length xs"
  by (induction n) simp_all

lemma fold_update_nth:
  "t < length xs \<Longrightarrow>
   fold (\<lambda>i xs. xs[i := f (xs ! i)]) [0..<n] xs ! t = (if t < n then f (xs ! t) else xs ! t)"
proof (induction n arbitrary: t)
  case 0
  show ?case by simp
next
  case (Suc n)
  show ?case
  proof (cases "n < length xs")
    case True
    then show ?thesis using Suc(1)[OF Suc(2)] Suc(1)[OF True] Suc(2)
      by (auto simp: nth_list_update fold_update_length less_Suc_eq)
  next
    case False
    then show ?thesis using Suc(1)[OF Suc(2)] Suc(2)
      by (auto simp: fold_update_length less_Suc_eq)
  qed
qed

lemma fold_update_map:
  "n = length xs \<Longrightarrow> fold (\<lambda>i xs. xs[i := f (xs ! i)]) [0..<n] xs = map f xs"
  by (rule nth_equalityI) (simp_all add: fold_update_nth fold_update_length)

lemma fold_pair:
  "fold (\<lambda>i (a, b). (F i a, G i b)) is (a, b) = (fold F is a, fold G is b)"
  by (induction "is" arbitrary: a b) simp_all

lemma cis_eq_1_imp:
  assumes "cis (2 * pi * real_of_int d / real n) = 1" and n: "0 < n"
  shows "int n dvd d"
proof -
  from assms(1) have "cos (2 * pi * real_of_int d / real n) = 1"
    by (simp add: complex_eq_iff)
  then obtain z :: int where z: "2 * pi * real_of_int d / real n = real_of_int z * 2 * pi"
    unfolding cos_one_2pi_int by blast
  then have "pi * (2 * real_of_int d) = pi * (2 * (real_of_int z * real n))"
    using n by (simp add: field_simps)
  then have "2 * real_of_int d = 2 * (real_of_int z * real n)"
    using pi_neq_zero mult_left_cancel[of pi] by blast
  then have "real_of_int d = real_of_int (z * int n)" by simp
  then have "d = z * int n" by (simp only: of_int_eq_iff)
  then show ?thesis by simp
qed

lemma geometric_cis:
  assumes n: "0 < n" and l: "l < n" and k: "k < n"
  shows "(\<Sum>j<n. cis (2 * pi * real_of_int (int k - int l) / real n) ^ j) = (if l = k then of_nat n else 0)"
proof (cases "l = k")
  case True
  then show ?thesis by simp
next
  case False
  let ?r = "cis (2 * pi * real_of_int (int k - int l) / real n)"
  have "\<not> int n dvd (int k - int l)"
  proof
    assume "int n dvd (int k - int l)"
    then have "int n dvd \<bar>int k - int l\<bar>" by simp
    then have "int k - int l = 0 \<or> int n \<le> \<bar>int k - int l\<bar>"
      using zdvd_imp_le[of "int n" "\<bar>int k - int l\<bar>"] by auto
    with l k False show False by auto
  qed
  then have r1: "?r \<noteq> 1" using cis_eq_1_imp[OF _ n] by blast
  have "real n * (2 * pi * real_of_int (int k - int l) / real n) = 2 * pi * real_of_int (int k - int l)"
    using n by simp
  then have "?r ^ n = cis (2 * pi * real_of_int (int k - int l))" unfolding DeMoivre by simp
  also have "\<dots> = 1" by (rule cis_multiple_2pi) simp
  finally have rn: "?r ^ n = 1" .
  have "(\<Sum>j<n. ?r ^ j) = (?r ^ n - 1) / (?r - 1)" using r1 by (rule geometric_sum)
  then show ?thesis using False rn by simp
qed

lemma dft_inversion:
  assumes n: "0 < n" and k: "k < n"
  shows "(\<Sum>j<n. dft n x j * cis (2 * pi * real k * real j / real n)) = of_nat n * x k"
proof -
  have "(\<Sum>j<n. dft n x j * cis (2 * pi * real k * real j / real n))
      = (\<Sum>j<n. \<Sum>l<n. x l * cis (2 * pi * real_of_int (int k - int l) / real n) ^ j)"
  proof (rule sum.cong[OF refl])
    fix j
    have "cis (- 2 * pi * real j * real l / real n) * cis (2 * pi * real k * real j / real n)
        = cis (2 * pi * real_of_int (int k - int l) / real n) ^ j" for l
      unfolding DeMoivre cis_mult using n by (intro arg_cong[where f = cis]) (simp add: field_simps)
    then show "dft n x j * cis (2 * pi * real k * real j / real n)
        = (\<Sum>l<n. x l * cis (2 * pi * real_of_int (int k - int l) / real n) ^ j)"
      unfolding dft_def sum_distrib_right by (simp add: mult.assoc)
  qed
  also have "\<dots> = (\<Sum>l<n. \<Sum>j<n. x l * cis (2 * pi * real_of_int (int k - int l) / real n) ^ j)"
    by (rule sum.swap)
  also have "\<dots> = (\<Sum>l<n. x l * (if l = k then of_nat n else 0))"
  proof (rule sum.cong[OF refl])
    fix l assume "l \<in> {..<n}"
    then have l: "l < n" by simp
    show "(\<Sum>j<n. x l * cis (2 * pi * real_of_int (int k - int l) / real n) ^ j) = x l * (if l = k then of_nat n else 0)"
      unfolding sum_distrib_left[symmetric] geometric_cis[OF n l k] ..
  qed
  also have "\<dots> = (\<Sum>l<n. if l = k then of_nat n * x l else 0)"
    by (rule sum.cong[OF refl]) simp
  also have "\<dots> = of_nat n * x k"
    using k by (simp add: sum.delta)
  finally show ?thesis .
qed

lemma dft_cong: "(\<And>j. j < n \<Longrightarrow> x j = y j) \<Longrightarrow> dft n x k = dft n y k"
  unfolding dft_def by (rule sum.cong[OF refl]) simp

lemma dft_cnj: "dft n (\<lambda>j. cnj (x j)) k = cnj (\<Sum>j<n. x j * cis (2 * pi * real k * real j / real n))"
proof -
  have "cnj (cis (2 * pi * real k * real j / real n)) = cis (- 2 * pi * real k * real j / real n)" for j
    by (simp add: cis_cnj)
  then show ?thesis unfolding dft_def by simp
qed

lemma scale_cnj: "Complex (Re (cnj z) / real n) (- Im (cnj z) / real n) = z / of_nat n"
  by (simp add: complex_eq_iff Re_divide_of_nat Im_divide_of_nat)

lemma inverse_fft_correct:
  assumes m: "m \<le> 29" and lr: "length re = 2 ^ m" and li: "length im = 2 ^ m"
  shows "\<exists>re' im'. inverse_fft (new_FFT (2 ^ m)) re im = Some (re', im')
      \<and> length re' = 2 ^ m \<and> length im' = 2 ^ m
      \<and> (\<forall>k<2 ^ m. cplx re' im' k = idft (2 ^ m) (cplx re im) k)"
proof -
  let ?n = "2 ^ m :: nat"
  let ?fft = "new_FFT (2 ^ m)"
  have sz: "nat (fft_size ?fft) = ?n" by (simp add: new_FFT_def nat_power_eq)
  have inv: "invSize ?fft = 1 / real ?n" by (simp add: new_FFT_def)
  have im1: "fold (\<lambda>i im. im[i := - (im ! i)]) [0..<nat (fft_size ?fft)] im = map uminus im"
    unfolding sz using li by (intro fold_update_map) simp
  have l1: "length (map uminus im) = 2 ^ m" using li by simp
  obtain re2 im2 where f: "forward ?fft re (map uminus im) = Some (re2, im2)"
    "length re2 = ?n" "length im2 = ?n"
    "\<And>k. k < ?n \<Longrightarrow> cplx re2 im2 k = dft ?n (cplx re (map uminus im)) k"
    using forward_correct[OF m lr l1] by blast
  let ?re' = "map (\<lambda>x. x * invSize ?fft) re2" and ?im' = "map (\<lambda>x. x * (- invSize ?fft)) im2"
  have fin: "fold (\<lambda>i (re, im). (re[i := re ! i * invSize ?fft], im[i := im ! i * (- invSize ?fft)]))
               [0..<nat (fft_size ?fft)] (re2, im2) = (?re', ?im')"
    unfolding sz fold_pair[of "\<lambda>i re. re[i := re ! i * invSize ?fft]" "\<lambda>i im. im[i := im ! i * (- invSize ?fft)]"]
    using fold_update_map[of ?n re2 "\<lambda>x. x * invSize ?fft"]
      fold_update_map[of ?n im2 "\<lambda>x. x * (- invSize ?fft)"] f(2,3)
    by (simp only: refl)
  have res: "inverse_fft ?fft re im = Some (?re', ?im')"
    unfolding inverse_fft_def Let_def im1 f(1) by (simp only: Option.bind.simps prod.case fin)
  have "cplx ?re' ?im' k = idft ?n (cplx re im) k" if k: "k < ?n" for k
  proof -
    let ?S = "\<Sum>j<?n. cplx re im j * cis (2 * pi * real k * real j / real ?n)"
    have "cplx re2 im2 k = dft ?n (\<lambda>j. cnj (cplx re im j)) k"
      unfolding f(4)[OF k] using li by (intro dft_cong) (simp add: cplx_def complex_eq_iff)
    also have "\<dots> = cnj ?S" by (rule dft_cnj)
    finally have c: "cplx re2 im2 k = cnj ?S" .
    have "cplx ?re' ?im' k = Complex (Re (cplx re2 im2 k) / real ?n) (- Im (cplx re2 im2 k) / real ?n)"
      using k f(2,3) by (simp add: cplx_def inv)
    also have "\<dots> = ?S / of_nat ?n"
      unfolding c by (rule scale_cnj)
    finally show ?thesis unfolding idft_def .
  qed
  with res f(2,3) show ?thesis by (intro exI[of _ ?re'] exI[of _ ?im']) simp
qed

lemma idft_dft: "0 < n \<Longrightarrow> k < n \<Longrightarrow> idft n (dft n x) k = x k"
  unfolding idft_def by (simp add: dft_inversion)

lemma idft_cong: "(\<And>j. j < n \<Longrightarrow> X j = Y j) \<Longrightarrow> idft n X k = idft n Y k"
  unfolding idft_def by (intro arg_cong2[where f = "(/)"] sum.cong refl) simp

lemma inverse_forward:
  assumes m: "m \<le> 29" and lr: "length re = 2 ^ m" and li: "length im = 2 ^ m"
  shows "\<exists>re1 im1. forward (new_FFT (2 ^ m)) re im = Some (re1, im1)
      \<and> inverse_fft (new_FFT (2 ^ m)) re1 im1 = Some (re, im)"
proof -
  let ?n = "2 ^ m :: nat"
  obtain re1 im1 where f: "forward (new_FFT (2 ^ m)) re im = Some (re1, im1)"
    "length re1 = ?n" "length im1 = ?n"
    "\<And>k. k < ?n \<Longrightarrow> cplx re1 im1 k = dft ?n (cplx re im) k"
    using forward_correct[OF m lr li] by blast
  obtain re2 im2 where i: "inverse_fft (new_FFT (2 ^ m)) re1 im1 = Some (re2, im2)"
    "length re2 = ?n" "length im2 = ?n"
    "\<And>k. k < ?n \<Longrightarrow> cplx re2 im2 k = idft ?n (cplx re1 im1) k"
    using inverse_fft_correct[OF m f(2,3)] by blast
  have "cplx re2 im2 k = cplx re im k" if k: "k < ?n" for k
  proof -
    have "idft ?n (cplx re1 im1) k = idft ?n (dft ?n (cplx re im)) k"
      by (rule idft_cong) (rule f(4))
    then show ?thesis using i(4)[OF k] k by (simp add: idft_dft)
  qed
  then have eq: "\<And>k. k < ?n \<Longrightarrow> re2 ! k = re ! k \<and> im2 ! k = im ! k"
    by (simp add: cplx_def)
  have "re2 = re" using i(2) lr eq by (intro nth_equalityI) simp_all
  moreover have "im2 = im" using i(3) li eq by (intro nth_equalityI) simp_all
  ultimately show ?thesis using f(1) i(1) by simp
qed


section \<open>Claims about the FFT\<close>

text \<open>
  Claim C1, amended: for every power of two \<open>N = 2 ^ m\<close> up to \<open>2 ^ 29\<close> and every pair of
  arrays of length \<open>N\<close>, \<open>forward\<close> returns; its first phase is the bit-reversal permutation,
  and after the butterfly passes bin \<open>k\<close> holds
  \<open>X[k] = \<Sum> x[j] * e^(-2 pi i k j / N)\<close> of the original contents, in exact arithmetic.
\<close>

theorem forward_computes_dft:
  assumes "m \<le> 29" and "length re = 2 ^ m" and "length im = 2 ^ m"
  shows "\<exists>re' im'. forward (new_FFT (2 ^ m)) re im = Some (re', im')
      \<and> length re' = 2 ^ m \<and> length im' = 2 ^ m
      \<and> bitrev_for (2 ^ m) 0 0 re im = Some (bitrev_list m re, bitrev_list m im)
      \<and> (\<forall>k<2 ^ m. Complex (re' ! k) (im' ! k)
            = (\<Sum>j<2 ^ m. Complex (re ! j) (im ! j) * cis (- 2 * pi * real k * real j / 2 ^ m)))"
proof -
  have "m \<le> 30" using assms(1) by simp
  then have "bitrev_for (2 ^ m) 0 0 re im = Some (bitrev_list m re, bitrev_list m im)"
    using assms(2,3) by (rule bitrev_for_correct)
  with forward_correct[OF assms] show ?thesis
    by (simp add: cplx_def dft_def)
qed

theorem forward_computes_dft_witness:
  "forward (new_FFT (2 ^ 1)) [1, 2] [0, 0] = Some ([3, - 1], [0, 0])"
proof -
  obtain re' im' where r: "forward (new_FFT (2 ^ 1)) [1, 2] [0, 0] = Some (re', im')"
    "length re' = 2" "length im' = 2"
    "\<forall>k<2. Complex (re' ! k) (im' ! k)
        = (\<Sum>j<2. Complex ([1, 2] ! j) ([0, 0] ! j) * cis (- 2 * pi * real k * real j / 2))"
    using forward_computes_dft[of 1 "[1, 2]" "[0, 0]"] by auto
  have two: "{..<2::nat} = {0, 1}" by auto
  have "Complex (re' ! 0) (im' ! 0) = Complex 3 0"
    using r(4) by (simp add: two complex_eq_iff)
  moreover have "Complex (re' ! 1) (im' ! 1) = Complex (- 1) 0"
    using r(4) by (simp add: two complex_eq_iff)
  ultimately have v: "re' ! 0 = 3" "im' ! 0 = 0" "re' ! 1 = - 1" "im' ! 1 = 0" by simp_all
  have "re' = [re' ! 0, re' ! 1]" using r(2) by (intro nth_equalityI) (auto simp: less_2_cases_iff)
  moreover have "im' = [im' ! 0, im' ! 1]" using r(3) by (intro nth_equalityI) (auto simp: less_2_cases_iff)
  ultimately have "re' = [3, - 1]" "im' = [0, 0]" using v by simp_all
  with r(1) show ?thesis by simp
qed

text \<open>
  At \<open>N = 2 ^ 30\<close> the bit reversal and the passes up to \<open>len = 2 ^ 30\<close> run, then
  \<open>len <<= 1\<close> gives \<open>-2147483648\<close>, \<open>len <= n\<close> still holds, and
  \<open>for (let i = 0; i < n; i += len)\<close> counts downwards for ever.
\<close>

theorem forward_2_30_never_returns:
  "forward (new_FFT (2 ^ 30)) (replicate (2 ^ 30) 0) (replicate (2 ^ 30) 0) = None"
  by (rule forward_diverges) simp_all

text \<open>
  Claim C2, amended: for every power of two \<open>N = 2 ^ m\<close> up to \<open>2 ^ 29\<close> and every real array
  \<open>x\<close> of length \<open>N\<close> with a zero imaginary part, \<open>forward\<close> returns and \<open>inverse\<close>
  (conjugate, \<open>forward\<close>, conjugate and scale by \<open>1/N\<close>) applied to its result returns
  \<open>x\<close> and the zero imaginary part, in exact arithmetic.
\<close>

theorem inverse_after_forward:
  assumes "m \<le> 29" and "length x = 2 ^ m"
  shows "\<exists>re1 im1. forward (new_FFT (2 ^ m)) x (replicate (2 ^ m) 0) = Some (re1, im1)
      \<and> inverse_fft (new_FFT (2 ^ m)) re1 im1 = Some (x, replicate (2 ^ m) 0)"
  using inverse_forward[OF assms(1,2), of "replicate (2 ^ m) 0"] by simp

theorem inverse_after_forward_witness:
  "\<exists>re1 im1. forward (new_FFT 2) [1, 2] [0, 0] = Some (re1, im1)
      \<and> inverse_fft (new_FFT 2) re1 im1 = Some ([1, 2], [0, 0])"
  using inverse_after_forward[of 1 "[1, 2]"] by (simp add: numeral_2_eq_2)

text \<open>
  At \<open>N = 2 ^ 30\<close> the round trip does not return: \<open>forward\<close> never hands a spectrum to
  \<open>inverse\<close>.
\<close>

theorem round_trip_2_30_never_returns:
  "round_trip (new_FFT (2 ^ 30)) (replicate (2 ^ 30) 1) = None"
proof -
  have "forward (new_FFT (2 ^ 30)) (replicate (2 ^ 30) 1) (replicate (2 ^ 30) 0) = None"
    by (rule forward_diverges) simp_all
  then show ?thesis unfolding round_trip_def length_replicate by (simp only: Option.bind.simps)
qed


section \<open>Properties of the rephaser\<close>

lemma rephase_fold:
  "n' \<le> L \<Longrightarrow> length re = L \<Longrightarrow> length im = L \<Longrightarrow>
   fold (rephase_bin phases) [0..<n'] (re, im) = (re', im') \<Longrightarrow>
   length re' = L \<and> length im' = L \<and>
   (\<forall>t. cplx re' im' t = (if t < n' then of_real (cmod (cplx re im t)) * cis (phases ! t) else cplx re im t))"
proof (induction n' arbitrary: re' im')
  case 0
  then show ?case by simp
next
  case (Suc n')
  obtain re1 im1 where f: "fold (rephase_bin phases) [0..<n'] (re, im) = (re1, im1)"
    by (cases "fold (rephase_bin phases) [0..<n'] (re, im)") auto
  have IH: "length re1 = L" "length im1 = L"
    "\<And>t. cplx re1 im1 t = (if t < n' then of_real (cmod (cplx re im t)) * cis (phases ! t) else cplx re im t)"
    using Suc.IH[OF _ Suc.prems(2,3) f] Suc.prems(1) by simp_all
  have step: "rephase_bin phases n' (re1, im1) = (re', im')"
    using Suc.prems(4) f by simp
  have n'L: "n' < L" using Suc.prems(1) by simp
  have amp: "sqrt (re1 ! n' * re1 ! n' + im1 ! n' * im1 ! n') = cmod (cplx re im n')"
    using IH(3)[of n'] by (simp add: cplx_def cmod_def power2_eq_square)
  have re': "re' = re1[n' := cmod (cplx re im n') * cos (phases ! n')]"
    and im': "im' = im1[n' := cmod (cplx re im n') * sin (phases ! n')]"
    using step by (simp_all add: rephase_bin_def Let_def amp)
  have "cplx re' im' t = (if t < Suc n' then of_real (cmod (cplx re im t)) * cis (phases ! t) else cplx re im t)" for t
  proof (cases "t = n'")
    case True
    then show ?thesis using n'L IH(1,2)
      by (simp add: re' im' cplx_def complex_eq_iff)
  next
    case False
    then have "cplx re' im' t = cplx re1 im1 t" by (simp add: re' im' cplx_def)
    then show ?thesis using False IH(3)[of t] by (auto simp: less_Suc_eq)
  qed
  then show ?case using IH(1,2) by (simp add: re' im')
qed

lemma mirror_fold:
  "1 \<le> n' \<Longrightarrow> 2 * n' \<le> N + 1 \<Longrightarrow> length re = N \<Longrightarrow> length im = N \<Longrightarrow>
   fold (mirror_bin (int N)) [1..<n'] (re, im) = (re', im') \<Longrightarrow>
   length re' = N \<and> length im' = N \<and>
   (\<forall>t. cplx re' im' t = (if N - n' < t \<and> t < N then cnj (cplx re im (N - t)) else cplx re im t))"
proof (induction n' arbitrary: re' im')
  case 0
  then show ?case by simp
next
  case (Suc n')
  show ?case
  proof (cases "n' = 0")
    case True
    then show ?thesis using Suc.prems by auto
  next
    case False
    then have n1: "1 \<le> n'" by simp
    obtain re1 im1 where f: "fold (mirror_bin (int N)) [1..<n'] (re, im) = (re1, im1)"
      by (cases "fold (mirror_bin (int N)) [1..<n'] (re, im)") auto
    have IH: "length re1 = N" "length im1 = N"
      "\<And>t. cplx re1 im1 t = (if N - n' < t \<and> t < N then cnj (cplx re im (N - t)) else cplx re im t)"
      using Suc.IH[OF n1 _ Suc.prems(3,4) f] Suc.prems(2) by simp_all
    have "[1..<Suc n'] = [1..<n'] @ [n']" using n1 by simp
    then have step: "mirror_bin (int N) n' (re1, im1) = (re', im')"
      using Suc.prems(5) f by simp
    have idx: "nat (int N - int n') = N - n'" by simp
    have nN: "n' < N" "N - n' < N" "\<not> N - n' < n'" using Suc.prems(2) n1 by simp_all
    have src: "cplx re1 im1 n' = cplx re im n'" using IH(3)[of n'] nN by simp
    have re': "re' = re1[N - n' := re1 ! n']" and im': "im' = im1[N - n' := - (im1 ! n')]"
      using step by (simp_all add: mirror_bin_def idx)
    have "cplx re' im' t = (if N - Suc n' < t \<and> t < N then cnj (cplx re im (N - t)) else cplx re im t)" for t
    proof (cases "t = N - n'")
      case True
      have "cplx re' im' t = cnj (cplx re1 im1 n')"
        unfolding True using nN IH(1,2) by (simp add: re' im' cplx_def complex_eq_iff)
      moreover have "N - Suc n' < N - n'" "N - (N - n') = n'" using nN(1) by simp_all
      ultimately show ?thesis using True nN(2) src by simp
    next
      case False
      then have "cplx re' im' t = cplx re1 im1 t" by (simp add: re' im' cplx_def)
      then show ?thesis using False IH(3)[of t] nN by auto
    qed
    then show ?thesis using IH(1,2) by (simp add: re' im')
  qed
qed

lemma cis_pi_mult: "cis (pi * real j) = (- 1) ^ j"
proof -
  have "cis pi ^ j = cis (real j * pi)" by (rule DeMoivre)
  then show ?thesis by (simp add: mult.commute)
qed

lemma Im_mult_minus_one_pow: "Im (z * (- 1) ^ j) = (- 1) ^ j * Im z"
  by (induction j) simp_all

lemma cis_mirror:
  assumes "0 < N" and "k \<le> N"
  shows "cis (2 * pi * real j * real (N - k) / real N) = cnj (cis (2 * pi * real j * real k / real N))"
proof -
  let ?b = "2 * pi * real j * real k / real N"
  have e: "2 * pi * real j * real (N - k) / real N = 2 * pi * real j + - ?b"
    using assms by (simp add: of_nat_diff field_simps)
  have one: "cis (2 * pi * real j) = 1" by (rule cis_multiple_2pi) simp
  have "cis (2 * pi * real j * real (N - k) / real N) = cis (2 * pi * real j) * cis (- ?b)"
    unfolding e by (rule cis_mult[symmetric])
  also have "\<dots> = cnj (cis ?b)" unfolding one by (simp add: cis_cnj)
  finally show ?thesis .
qed

lemma hermitian_sum_Im:
  fixes Y :: "nat \<Rightarrow> complex"
  assumes h: "1 \<le> h" and sym: "\<And>k. h < k \<Longrightarrow> k < 2 * h \<Longrightarrow> Y k = cnj (Y (2 * h - k))"
  shows "Im (\<Sum>k<2 * h. Y k * cis (2 * pi * real j * real k / real (2 * h)))
       = Im (Y 0) + (- 1) ^ j * Im (Y h)"
proof -
  let ?N = "2 * h"
  let ?f = "\<lambda>k. Y k * cis (2 * pi * real j * real k / real ?N)"
  have split: "(\<Sum>k<?N. ?f k) = ?f 0 + (\<Sum>k = 1..<h. ?f k) + ?f h + (\<Sum>k = Suc h..<?N. ?f k)"
  proof -
    have "(\<Sum>k<?N. ?f k) = (\<Sum>k = 0..<h. ?f k) + (\<Sum>k = h..<?N. ?f k)"
      using h by (simp add: lessThan_atLeast0 sum.atLeastLessThan_concat)
    moreover have "(\<Sum>k = 0..<h. ?f k) = ?f 0 + (\<Sum>k = 1..<h. ?f k)"
      using h by (subst sum.atLeast_Suc_lessThan) simp_all
    moreover have "(\<Sum>k = h..<?N. ?f k) = ?f h + (\<Sum>k = Suc h..<?N. ?f k)"
      using h by (subst sum.atLeast_Suc_lessThan) simp_all
    ultimately show ?thesis by (simp only: add.assoc)
  qed
  have "(\<Sum>k = Suc h..<?N. ?f k) = (\<Sum>k = 1..<h. ?f (?N - k))"
    by (rule sum.reindex_bij_witness[where i = "\<lambda>k. ?N - k" and j = "\<lambda>k. ?N - k"]) auto
  also have "\<dots> = (\<Sum>k = 1..<h. cnj (?f k))"
  proof (rule sum.cong[OF refl])
    fix k assume "k \<in> {1..<h}"
    then have k: "1 \<le> k" "k < h" by simp_all
    have "Y (?N - k) = cnj (Y (?N - (?N - k)))" using k by (intro sym) simp_all
    also have "?N - (?N - k) = k" using k by simp
    finally have y: "Y (?N - k) = cnj (Y k)" .
    have "cis (2 * pi * real j * real (?N - k) / real ?N) = cnj (cis (2 * pi * real j * real k / real ?N))"
      using k h by (intro cis_mirror) simp_all
    with y show "?f (?N - k) = cnj (?f k)" by simp
  qed
  finally have tail: "(\<Sum>k = Suc h..<?N. ?f k) = (\<Sum>k = 1..<h. cnj (?f k))" .
  have "Im ((\<Sum>k = 1..<h. ?f k) + (\<Sum>k = 1..<h. cnj (?f k))) = 0"
    by (simp add: sum.distrib[symmetric])
  then have mid: "Im (\<Sum>k = 1..<h. ?f k) + Im (\<Sum>k = 1..<h. cnj (?f k)) = 0" by simp
  have f0: "?f 0 = Y 0" by simp
  have "2 * pi * real j * real h / real ?N = pi * real j" using h by simp
  then have fh: "?f h = Y h * (- 1) ^ j" by (simp only: cis_pi_mult)
  have "Im (\<Sum>k<?N. ?f k) = Im (Y 0) + Im (Y h * (- 1) ^ j)
      + (Im (\<Sum>k = 1..<h. ?f k) + Im (\<Sum>k = 1..<h. cnj (?f k)))"
    unfolding split tail f0 fh by simp
  then show ?thesis unfolding mid by (simp add: Im_mult_minus_one_pow)
qed

lemma half_pow2:
  assumes "1 \<le> m"
  shows "nat \<lfloor>real_of_int (2 ^ m) / 2\<rfloor> = 2 ^ (m - 1)" "nat \<lceil>real_of_int (2 ^ m) / 2\<rceil> = 2 ^ (m - 1)"
    "(2::nat) ^ m = 2 * 2 ^ (m - 1)"
proof -
  obtain m' where m': "m = Suc m'" using assms by (cases m) auto
  have "real_of_int (2 ^ m) / 2 = real_of_int (2 ^ m')" by (simp add: m')
  then show "nat \<lfloor>real_of_int (2 ^ m) / 2\<rfloor> = 2 ^ (m - 1)" "nat \<lceil>real_of_int (2 ^ m) / 2\<rceil> = 2 ^ (m - 1)"
    by (simp_all only: floor_of_int ceiling_of_int, simp_all add: m' nat_power_eq)
  show "(2::nat) ^ m = 2 * 2 ^ (m - 1)" by (simp add: m')
qed

lemma rephase_ifft_imag:
  assumes m1: "1 \<le> m" and m: "m \<le> 29" and la: "length array = 2 ^ m"
  shows "\<exists>re1 im1 re4 im4.
      forward (new_FFT (2 ^ m)) array (replicate (2 ^ m) 0) = Some (re1, im1)
    \<and> (\<forall>k<2 ^ m. cplx re1 im1 k = dft (2 ^ m) (cplx array (replicate (2 ^ m) 0)) k)
    \<and> rephase_ifft (2 ^ m) array phases = Some (re4, im4)
    \<and> length re4 = 2 ^ m \<and> length im4 = 2 ^ m
    \<and> (\<forall>j<2 ^ m. im4 ! j =
          (sqrt (re1 ! 0 * re1 ! 0 + im1 ! 0 * im1 ! 0) * sin (phases ! 0)
           + (- 1) ^ j * (sqrt (re1 ! (2 ^ (m - 1)) * re1 ! (2 ^ (m - 1)) + im1 ! (2 ^ (m - 1)) * im1 ! (2 ^ (m - 1)))
                          * sin (phases ! (2 ^ (m - 1))))) / 2 ^ m)"
proof -
  let ?N = "2 ^ m :: nat" and ?h = "2 ^ (m - 1) :: nat"
  note hp = half_pow2[OF m1]
  have h1: "1 \<le> ?h" by simp
  have natN: "nat (2 ^ m) = ?N" by (simp add: nat_power_eq)
  have intN: "(2::int) ^ m = int ?N" by simp
  obtain re1 im1 where f: "forward (new_FFT (2 ^ m)) array (replicate ?N 0) = Some (re1, im1)"
    "length re1 = ?N" "length im1 = ?N"
    and fd: "\<forall>k<?N. cplx re1 im1 k = dft ?N (cplx array (replicate ?N 0)) k"
    using forward_correct[OF m la, of "replicate ?N 0"] by auto
  obtain re2 im2 where p: "fold (rephase_bin phases) [0..<?h + 1] (re1, im1) = (re2, im2)"
    by (cases "fold (rephase_bin phases) [0..<?h + 1] (re1, im1)") auto
  have "?h + 1 \<le> ?N" using h1 hp(3) by linarith
  from rephase_fold[OF this f(2,3) p] have ps: "length re2 = ?N" "length im2 = ?N"
    "\<And>t. cplx re2 im2 t = (if t < ?h + 1 then of_real (cmod (cplx re1 im1 t)) * cis (phases ! t) else cplx re1 im1 t)"
    by simp_all
  obtain re3 im3 where q: "fold (mirror_bin (int ?N)) [1..<?h] (re2, im2) = (re3, im3)"
    by (cases "fold (mirror_bin (int ?N)) [1..<?h] (re2, im2)") auto
  have "2 * ?h \<le> ?N + 1" using hp(3) by linarith
  from mirror_fold[OF h1 this ps(1,2) q] have qs: "length re3 = ?N" "length im3 = ?N"
    "\<And>t. cplx re3 im3 t = (if ?N - ?h < t \<and> t < ?N then cnj (cplx re2 im2 (?N - t)) else cplx re2 im2 t)"
    by simp_all
  obtain re4 im4 where i: "inverse_fft (new_FFT (2 ^ m)) re3 im3 = Some (re4, im4)"
    "length re4 = ?N" "length im4 = ?N"
    "\<And>k. k < ?N \<Longrightarrow> cplx re4 im4 k = idft ?N (cplx re3 im3) k"
    using inverse_fft_correct[OF m qs(1,2)] by blast
  have q': "fold (mirror_bin (2 ^ m)) [1..<?h] (re2, im2) = (re3, im3)"
    using q by simp
  have r: "rephase_ifft (2 ^ m) array phases = Some (re4, im4)"
    unfolding rephase_ifft_def Let_def natN f(1) hp(1,2)
    by (simp only: Option.bind.simps p q' fst_conv snd_conv i(1))
  let ?Y = "cplx re3 im3"
  have Nh: "?N - ?h = ?h" using hp(3) by simp
  have Y: "?Y t = (if ?h < t \<and> t < 2 * ?h then cnj (cplx re2 im2 (2 * ?h - t)) else cplx re2 im2 t)" for t
    using qs(3)[of t] unfolding Nh unfolding hp(3) .
  have sym: "?Y k = cnj (?Y (2 * ?h - k))" if "?h < k" "k < 2 * ?h" for k
  proof -
    have "\<not> (?h < 2 * ?h - k \<and> 2 * ?h - k < 2 * ?h)" using that by linarith
    then have "?Y (2 * ?h - k) = cplx re2 im2 (2 * ?h - k)" unfolding Y[of "2 * ?h - k"] by (rule if_not_P)
    moreover have "?Y k = cnj (cplx re2 im2 (2 * ?h - k))" unfolding Y[of k] using that by simp
    ultimately show ?thesis by simp
  qed
  have Y0: "?Y 0 = of_real (cmod (cplx re1 im1 0)) * cis (phases ! 0)"
    unfolding Y[of 0] ps(3)[of 0] by simp
  have Yh: "?Y ?h = of_real (cmod (cplx re1 im1 ?h)) * cis (phases ! ?h)"
    unfolding Y[of ?h] ps(3)[of ?h] by simp
  have amp: "cmod (cplx re1 im1 t) = sqrt (re1 ! t * re1 ! t + im1 ! t * im1 ! t)" for t
    by (simp add: cplx_def cmod_def power2_eq_square)
  have "im4 ! j = (sqrt (re1 ! 0 * re1 ! 0 + im1 ! 0 * im1 ! 0) * sin (phases ! 0)
           + (- 1) ^ j * (sqrt (re1 ! ?h * re1 ! ?h + im1 ! ?h * im1 ! ?h) * sin (phases ! ?h))) / 2 ^ m"
    if j: "j < ?N" for j
  proof -
    have "im4 ! j = Im (cplx re4 im4 j)" by (simp add: cplx_def)
    also have "\<dots> = Im ((\<Sum>k<2 * ?h. ?Y k * cis (2 * pi * real j * real k / real (2 * ?h))) / of_nat ?N)"
      unfolding i(4)[OF j] idft_def hp(3)[symmetric] ..
    also have "\<dots> = Im (\<Sum>k<2 * ?h. ?Y k * cis (2 * pi * real j * real k / real (2 * ?h))) / real ?N"
      by (rule Im_divide_of_nat)
    also have "\<dots> = (Im (?Y 0) + (- 1) ^ j * Im (?Y ?h)) / real ?N"
      using hermitian_sum_Im[of ?h ?Y j, OF h1 sym] by simp
    also have "\<dots> = (cmod (cplx re1 im1 0) * sin (phases ! 0)
        + (- 1) ^ j * (cmod (cplx re1 im1 ?h) * sin (phases ! ?h))) / 2 ^ m"
      unfolding Y0 Yh by simp
    finally show ?thesis unfolding amp .
  qed
  with f(1) fd r i(2,3) show ?thesis by blast
qed


text \<open>
  Claim C3, amended: for every block of length \<open>N = 2 ^ m\<close> with \<open>2 \<le> N \<le> 2 ^ 29\<close> and
  every choice of phases, the rephaser (magnitude with the new phase on the bins
  \<open>0 .. half_size\<close>, mirror \<open>Re[N-k] = Re[k]\<close>, \<open>Im[N-k] = -Im[k]\<close> for \<open>k\<close> in
  \<open>[1, half_size)\<close>) reaches the end of the inverse FFT, and the imaginary part of the
  result at sample \<open>j\<close> is \<open>(A\<^sub>0 sin \<phi>\<^sub>0 + (-1)^j A\<^sub>h sin \<phi>\<^sub>h) / N\<close>, with \<open>A\<^sub>k\<close> the magnitude of
  bin \<open>k\<close> of the forward transform and \<open>h = half_size\<close>. The bins 0 and \<open>half_size\<close> get
  a phase like the others; the result is real-valued when \<open>A\<^sub>0 sin \<phi>\<^sub>0 = 0\<close> and
  \<open>A\<^sub>h sin \<phi>\<^sub>h = 0\<close>.
\<close>

theorem rephaser_imaginary_part:
  assumes "1 \<le> m" and "m \<le> 29" and "length array = 2 ^ m"
  shows "\<exists>re1 im1 re4 im4.
      forward (new_FFT (2 ^ m)) array (replicate (2 ^ m) 0) = Some (re1, im1)
    \<and> rephase_ifft (2 ^ m) array phases = Some (re4, im4)
    \<and> length im4 = 2 ^ m
    \<and> (\<forall>j<2 ^ m. im4 ! j =
          (sqrt (re1 ! 0 * re1 ! 0 + im1 ! 0 * im1 ! 0) * sin (phases ! 0)
           + (- 1) ^ j * (sqrt (re1 ! (2 ^ (m - 1)) * re1 ! (2 ^ (m - 1))
                                 + im1 ! (2 ^ (m - 1)) * im1 ! (2 ^ (m - 1)))
                          * sin (phases ! (2 ^ (m - 1))))) / 2 ^ m)
    \<and> (sqrt (re1 ! 0 * re1 ! 0 + im1 ! 0 * im1 ! 0) * sin (phases ! 0) = 0
         \<and> sqrt (re1 ! (2 ^ (m - 1)) * re1 ! (2 ^ (m - 1)) + im1 ! (2 ^ (m - 1)) * im1 ! (2 ^ (m - 1)))
             * sin (phases ! (2 ^ (m - 1))) = 0
         \<longrightarrow> (\<forall>j<2 ^ m. im4 ! j = 0))"
proof -
  obtain re1 im1 re4 im4 where r:
    "forward (new_FFT (2 ^ m)) array (replicate (2 ^ m) 0) = Some (re1, im1)"
    "rephase_ifft (2 ^ m) array phases = Some (re4, im4)"
    "length im4 = 2 ^ m"
    "\<forall>j<2 ^ m. im4 ! j =
          (sqrt (re1 ! 0 * re1 ! 0 + im1 ! 0 * im1 ! 0) * sin (phases ! 0)
           + (- 1) ^ j * (sqrt (re1 ! (2 ^ (m - 1)) * re1 ! (2 ^ (m - 1))
                                 + im1 ! (2 ^ (m - 1)) * im1 ! (2 ^ (m - 1)))
                          * sin (phases ! (2 ^ (m - 1))))) / 2 ^ m"
    using rephase_ifft_imag[OF assms, of phases] by blast
  have "sqrt (re1 ! 0 * re1 ! 0 + im1 ! 0 * im1 ! 0) * sin (phases ! 0) = 0
         \<and> sqrt (re1 ! (2 ^ (m - 1)) * re1 ! (2 ^ (m - 1)) + im1 ! (2 ^ (m - 1)) * im1 ! (2 ^ (m - 1)))
             * sin (phases ! (2 ^ (m - 1))) = 0
         \<longrightarrow> (\<forall>j<2 ^ m. im4 ! j = 0)"
  proof (intro impI allI)
    fix j :: nat
    assume z: "sqrt (re1 ! 0 * re1 ! 0 + im1 ! 0 * im1 ! 0) * sin (phases ! 0) = 0
         \<and> sqrt (re1 ! (2 ^ (m - 1)) * re1 ! (2 ^ (m - 1)) + im1 ! (2 ^ (m - 1)) * im1 ! (2 ^ (m - 1)))
             * sin (phases ! (2 ^ (m - 1))) = 0"
      and j: "j < 2 ^ m"
    show "im4 ! j = 0" using r(4) j by (simp only: z) simp
  qed
  with r show ?thesis
    apply (rule_tac x = re1 in exI)
    apply (rule_tac x = im1 in exI)
    apply (rule_tac x = re4 in exI)
    apply (rule_tac x = im4 in exI)
    apply (intro conjI)
        apply assumption+
    done
qed

theorem rephaser_imaginary_part_witness:
  "rephase_ifft 2 [1, 2] [0, 0] \<noteq> None \<and> snd (the (rephase_ifft 2 [1, 2] [0, 0])) = [0, 0]"
proof -
  obtain re1 im1 re4 im4 where r: "rephase_ifft (2 ^ 1) [1, 2] [0, 0] = Some (re4, im4)"
    "length im4 = 2 ^ 1"
    "sqrt (re1 ! 0 * re1 ! 0 + im1 ! 0 * im1 ! 0) * sin ([0, 0] ! 0) = 0
       \<and> sqrt (re1 ! (2 ^ (1 - 1)) * re1 ! (2 ^ (1 - 1)) + im1 ! (2 ^ (1 - 1)) * im1 ! (2 ^ (1 - 1)))
           * sin ([0, 0] ! (2 ^ (1 - 1))) = 0
       \<longrightarrow> (\<forall>j<2 ^ 1. im4 ! j = 0)"
    using rephaser_imaginary_part[of 1 "[1, 2]" "[0, 0]"] by auto
  from r(3) have z: "im4 ! 0 = 0" "im4 ! 1 = 0" by simp_all
  have "im4 = [im4 ! 0, im4 ! 1]" using r(2) by (intro nth_equalityI) (auto simp: less_2_cases_iff)
  then have "im4 = [0, 0]" using z by simp
  with r(1) show ?thesis by simp
qed

text \<open>
  A block of four ones under the window of size 4, with the phase 1 for bin 0 and the
  phase 0 for the bins 1 and 2: the rephaser gives sample 0 of the inverse transform a
  non-zero imaginary part (\<open>(8/9)^1.25 sin(1) / 2\<close>).
\<close>

lemma createWindow_4: "createWindow 4 = [0, (8 / 9) powr 1.25, (8 / 9) powr 1.25, 0]"
proof -
  have u: "[0..<4] = [0, 1, 2, 3]" by (simp add: upt_rec)
  have a: "(1 - (- 1 + 2 / 3 :: real)\<^sup>2) = 8 / 9" "(1 - (- 1 + 2 / 3 + 2 / 3 :: real)\<^sup>2) = 8 / 9"
    "(1 - (- 1 + 2 / 3 + 2 / 3 + 2 / 3 :: real)\<^sup>2) = 0"
    by (simp_all add: power2_eq_square)
  have r: "replicate 4 (0::real) = [0, 0, 0, 0]" by (simp add: numeral_eq_Suc)
  have b: "(1 - (1 / 3 :: real)\<^sup>2) = 8 / 9" by (simp add: power2_eq_square)
  show ?thesis
    unfolding createWindow_def Let_def
    by (simp add: u r a b)
qed

theorem rephaser_imaginary_part_nonzero:
  "rephase_ifft 4 (map2 (*) [1, 1, 1, 1] (createWindow 4)) [1, 0, 0] \<noteq> None
   \<and> snd (the (rephase_ifft 4 (map2 (*) [1, 1, 1, 1] (createWindow 4)) [1, 0, 0])) ! 0 \<noteq> 0"
proof -
  let ?c = "(8 / 9 :: real) powr 1.25"
  let ?array = "[0, ?c, ?c, 0]"
  have arr: "map2 (*) [1, 1, 1, 1] (createWindow 4) = ?array" by (simp add: createWindow_4)
  have c: "0 < ?c" by simp
  obtain re1 im1 re4 im4 where r:
    "\<forall>k<2 ^ 2. cplx re1 im1 k = dft (2 ^ 2) (cplx ?array (replicate (2 ^ 2) 0)) k"
    "rephase_ifft (2 ^ 2) ?array [1, 0, 0] = Some (re4, im4)"
    "\<forall>j<2 ^ 2. im4 ! j =
          (sqrt (re1 ! 0 * re1 ! 0 + im1 ! 0 * im1 ! 0) * sin ([1, 0, 0] ! 0)
           + (- 1) ^ j * (sqrt (re1 ! (2 ^ (2 - 1)) * re1 ! (2 ^ (2 - 1))
                                 + im1 ! (2 ^ (2 - 1)) * im1 ! (2 ^ (2 - 1)))
                          * sin ([1, 0, 0] ! (2 ^ (2 - 1))))) / 2 ^ 2"
    using rephase_ifft_imag[of 2 ?array "[1, 0, 0]"] by auto
  have four: "{..<4::nat} = {0, 1, 2, 3}" by auto
  have "cplx re1 im1 0 = Complex (2 * ?c) 0"
    using r(1) by (simp add: dft_def cplx_def four complex_eq_iff)
  then have x0: "re1 ! 0 = 2 * ?c" "im1 ! 0 = 0" by (simp_all add: cplx_def)
  have "sqrt (re1 ! 0 * re1 ! 0 + im1 ! 0 * im1 ! 0) = 2 * ?c"
    using c by (simp add: x0 real_sqrt_mult)
  with r(3) have "im4 ! 0 = 2 * ?c * sin 1 / 4" by simp
  moreover have "0 < sin (1::real)" by (rule sin_gt_zero_02) simp_all
  moreover have "0 < 2 * ?c * sin 1 / 4" using c \<open>0 < sin (1::real)\<close> by simp
  ultimately have "im4 ! 0 \<noteq> 0" by linarith
  with r(2) show ?thesis unfolding arr by simp
qed


section \<open>Properties of the window size\<close>

lemma winSize_of_bounds:
  assumes "1 \<le> w"
  shows "w \<le> winSize_of w" and "winSize_of w < 2 * w"
proof -
  have w0: "0 < real_of_int w" using assms by simp
  have "0 \<le> log 2 (real_of_int w)" using assms by (simp add: zero_le_log_cancel_iff)
  then have cl: "0 \<le> \<lceil>log 2 (real_of_int w)\<rceil>" by linarith
  have "real_of_int w \<le> 2 ^ nat \<lceil>log 2 (real_of_int w)\<rceil>"
    by (rule power_of_nat_log_ge) simp
  then have "real_of_int w \<le> real_of_int (winSize_of w)"
    using assms by (simp add: winSize_of_def)
  then show "w \<le> winSize_of w" by linarith
  have "real_of_int (winSize_of w) = 2 powr (real_of_int \<lceil>log 2 (real_of_int w)\<rceil>)"
    using assms cl by (simp add: winSize_of_def powr_realpow[symmetric])
  also have "\<dots> < 2 powr (log 2 (real_of_int w) + 1)"
    by (rule powr_less_mono) (auto, linarith)
  also have "\<dots> = 2 * real_of_int w"
    using w0 by (simp add: powr_add)
  finally show "winSize_of w < 2 * w" by linarith
qed

lemma ceil_log2_pos: "2 \<le> w \<Longrightarrow> 1 \<le> \<lceil>log 2 (real_of_int w)\<rceil>"
proof -
  assume "2 \<le> w"
  then have "log 2 2 \<le> log 2 (real_of_int w)" by (subst log_le_cancel_iff) auto
  then have "1 \<le> log 2 (real_of_int w)" by simp
  then show ?thesis by linarith
qed

text \<open>
  Claim C10, amended: for a window of at least two samples the size handed to the FFT and
  the rephaser is \<open>2 ^ \<lceil>log2 windowSamples\<rceil>\<close>, a power of two with exponent at least 1,
  not below \<open>windowSamples\<close> and below twice it, and \<open>halfWinSize\<close> is the integer
  \<open>2 ^ (\<lceil>log2 windowSamples\<rceil> - 1)\<close>.
\<close>

theorem winSize_power_of_two:
  assumes "2 \<le> w"
  shows "winSize_of w = 2 ^ nat \<lceil>log 2 (real_of_int w)\<rceil>
       \<and> 1 \<le> nat \<lceil>log 2 (real_of_int w)\<rceil>
       \<and> w \<le> winSize_of w \<and> winSize_of w < 2 * w
       \<and> halfWinSize_of w = real_of_int (2 ^ (nat \<lceil>log 2 (real_of_int w)\<rceil> - 1))"
proof -
  let ?m = "nat \<lceil>log 2 (real_of_int w)\<rceil>"
  have m: "1 \<le> ?m" using ceil_log2_pos[OF assms] by linarith
  have ws: "winSize_of w = 2 ^ ?m" using assms by (simp add: winSize_of_def)
  have "(2::real) ^ ?m = 2 * 2 ^ (?m - 1)" using m by (cases ?m) auto
  then have "halfWinSize_of w = real_of_int (2 ^ (?m - 1))"
    by (simp add: halfWinSize_of_def ws)
  with m ws winSize_of_bounds[of w] assms show ?thesis by simp
qed

lemma winSize_of_11025: "winSize_of 11025 = 16384"
proof -
  have "\<lceil>log (real 2) (real 11025)\<rceil> = int 13 + 1"
    by (rule ceiling_log_nat_eq_if) simp_all
  then have "\<lceil>log 2 (11025::real)\<rceil> = 14" by simp
  then show ?thesis by (simp add: winSize_of_def)
qed

theorem winSize_power_of_two_witness:
  "(2::int) \<le> 11025 \<and> winSize_of 11025 = 16384 \<and> (11025::int) \<le> 16384 \<and> halfWinSize_of 11025 = 8192"
  using winSize_power_of_two[of 11025] winSize_of_11025 by (simp add: halfWinSize_of_def)

text \<open>
  With a window of one sample (allowed by \<open>1 \<le> windowSamples\<close>) the size is \<open>2 ^ 0 = 1\<close>
  and \<open>halfWinSize\<close> is 1/2, not an integer.
\<close>

theorem halfWinSize_one_sample:
  "(1::int) \<le> 1 \<and> winSize_of 1 = 1 \<and> halfWinSize_of 1 = 1 / 2 \<and> halfWinSize_of 1 \<notin> \<int>"
proof -
  have a: "winSize_of 1 = 1" by (simp add: winSize_of_def)
  have b: "halfWinSize_of 1 = 1 / 2" by (simp add: halfWinSize_of_def a)
  have "(1 / 2 :: real) \<notin> \<int>"
  proof
    assume "(1 / 2 :: real) \<in> \<int>"
    then obtain k :: int where "(1 / 2 :: real) = of_int k" by (auto elim: Ints_cases)
    then have "2 * real_of_int k = 1" by simp
    then have "2 * k = 1" by linarith
    then show False by presburger
  qed
  then have "halfWinSize_of 1 \<notin> \<int>" unfolding b .
  with a b show ?thesis by simp
qed

section \<open>The memory during a call of stretch\<close>

lemma writes_within_refl: "writes_within W h h"
  by (simp add: writes_within_def)

lemma writes_within_trans:
  "writes_within W h h1 \<Longrightarrow> writes_within W h1 h2 \<Longrightarrow> writes_within W h h2"
  by (simp add: writes_within_def)

lemma writes_within_fold:
  assumes "\<And>x h. x \<in> set xs \<Longrightarrow> writes_within W h (f x h)"
  shows "writes_within W h (fold f xs h)"
  using assms
proof (induction xs arbitrary: h)
  case Nil
  show ?case by (simp add: writes_within_refl)
next
  case (Cons x xs)
  have "writes_within W h (f x h)" by (rule Cons.prems) simp
  moreover have "writes_within W (f x h) (fold f xs (f x h))"
    by (rule Cons.IH) (simp add: Cons.prems)
  ultimately show ?case by (simp add: writes_within_trans[of W h "f x h"])
qed

lemma writes_within_ta_set: "a \<in> W \<Longrightarrow> writes_within W h (ta_set a r v h)"
  by (auto simp: writes_within_def ta_set_def split: option.splits)

lemma writes_within_update:
  "a \<in> W \<Longrightarrow> length xs = length (arrays h a) \<Longrightarrow> writes_within W h (h\<lparr>arrays := (arrays h)(a := xs)\<rparr>)"
  by (simp add: writes_within_def)

lemma writes_within_fill_blocks:
  assumes "set (blockIn c) \<subseteq> W" and "length (inputData c) \<le> length (blockIn c)"
  shows "writes_within W h (fill_blocks c pos h)"
  unfolding fill_blocks_def using assms
  by (intro writes_within_fold writes_within_ta_set) (auto simp: subset_iff)

lemma writes_within_applyWindow:
  assumes "set block \<subseteq> W"
  shows "writes_within W h (applyWindow block win h)"
  unfolding applyWindow_def using assms
  by (intro writes_within_fold writes_within_ta_set) (auto simp: subset_iff)

lemma length_fold_update: "length (fold (\<lambda>i a. a[i := g i a]) xs a) = length a"
  by (induction xs arbitrary: a) simp_all

lemma makeRephaser_length: "makeRephaser ws array phases = Some res \<Longrightarrow> length res = length array"
  by (auto simp: makeRephaser_def length_fold_update split: Option.bind_splits)

lemma writes_within_rephase:
  assumes "a \<in> W" and "rephase ws a p h = Some h'"
  shows "writes_within W h h'"
  using assms
  by (auto simp: rephase_def split: Option.bind_splits intro!: writes_within_update makeRephaser_length)

lemma writes_within_rephase_channels:
  assumes "phaseArray c \<in> W"
  shows "(\<And>ch. ch \<in> set chs \<Longrightarrow> blockIn c ! ch \<in> W) \<Longrightarrow>
    rephase_channels c rnd chs calls h = Some (calls', h') \<Longrightarrow> writes_within W h h'"
proof (induction chs arbitrary: calls h)
  case Nil
  then show ?case by (simp add: writes_within_refl)
next
  case (Cons ch chs)
  let ?n = "nat \<lfloor>halfWinSize c\<rfloor> + 1"
  let ?h1 = "fold (\<lambda>i. ta_set (phaseArray c) (real i) (Some (rnd (calls + i) * 2 * pi))) [0..<?n] h"
  from Cons.prems(2) obtain h2 where
    r: "rephase (winSize c) (blockIn c ! ch) (phaseArray c) ?h1 = Some h2"
    and rest: "rephase_channels c rnd chs (calls + ?n) h2 = Some (calls', h')"
    by (auto simp: Let_def split: Option.bind_splits)
  have "writes_within W h ?h1" using assms by (intro writes_within_fold writes_within_ta_set)
  moreover have "writes_within W ?h1 h2" using r Cons.prems(1) by (intro writes_within_rephase) simp_all
  moreover have "writes_within W h2 h'" using rest Cons.prems(1) by (intro Cons.IH) simp_all
  ultimately show ?case by (blast intro: writes_within_trans)
qed

lemma writes_within_overlap_add:
  "channelOut \<in> W \<Longrightarrow> writes_within W h (overlap_add half outLen opos channelOut block bOut i h)"
proof (induction half outLen opos channelOut block bOut i h rule: overlap_add.induct)
  case (1 half outLen opos channelOut block bOut i h)
  show ?case
  proof (cases "real i < half \<and> opos + real i < real_of_int outLen")
    case True
    let ?h1 = "ta_set channelOut (opos + real i)
            (js_add (ta_get h channelOut (opos + real i))
               (js_add (ta_get h block (real i)) (ta_get h bOut (half + real i)))) h"
    have "writes_within W h ?h1" using "1.prems" by (rule writes_within_ta_set)
    moreover have "writes_within W ?h1 (overlap_add half outLen opos channelOut block bOut (Suc i) ?h1)"
      using True "1.prems" by (intro "1.IH") simp_all
    ultimately have "writes_within W h (overlap_add half outLen opos channelOut block bOut (Suc i) ?h1)"
      by (rule writes_within_trans)
    then show ?thesis using True by (subst overlap_add.simps) simp
  next
    case False
    then show ?thesis by (subst overlap_add.simps) (auto simp: writes_within_refl)
  qed
qed

lemma writes_within_store_block: "bOut \<in> W \<Longrightarrow> writes_within W h (store_block ws block bOut h)"
  unfolding store_block_def by (intro writes_within_fold writes_within_ta_set)

lemma writes_within_add_frame:
  assumes "set (blockOut c) \<subseteq> W" and "set (outputData c) \<subseteq> W"
    and "length (inputData c) \<le> length (blockOut c)" and "length (inputData c) \<le> length (outputData c)"
  shows "writes_within W h (add_frame c opos h)"
  unfolding add_frame_def
proof (rule writes_within_fold)
  fix ch h assume "ch \<in> set [0..<length (inputData c)]"
  then have a: "blockOut c ! ch \<in> W" "outputData c ! ch \<in> W" using assms by (auto simp: subset_iff)
  show "writes_within W h (store_block (winSize c) (blockIn c ! ch) (blockOut c ! ch)
          (overlap_add (halfWinSize c) (outputLength c) opos
             (outputData c ! ch) (blockIn c ! ch) (blockOut c ! ch) 0 h))"
    by (rule writes_within_trans[OF writes_within_overlap_add[OF a(2)] writes_within_store_block[OF a(1)]])
qed

lemma writes_within_frame_body:
  assumes c: "ctx_within W c" and b: "frame_body c rnd s = Some s'"
  shows "writes_within W (mem s) (mem s')"
proof -
  let ?h1 = "fill_blocks c (inputPos s) (mem s)"
  let ?h2 = "applyWindow (blockIn c) (winArray c) ?h1"
  from b obtain calls h3 where
    r: "rephase_channels c rnd [0..<length (inputData c)] (randomCalls s) ?h2 = Some (calls, h3)"
    and s': "mem s' = add_frame c (outputPos s) (applyWindow (blockIn c) (winArray c) h3)"
    by (auto simp: frame_body_def Let_def split: Option.bind_splits)
  have 1: "writes_within W (mem s) ?h1" using c by (intro writes_within_fill_blocks) (simp_all add: ctx_within_def)
  have 2: "writes_within W ?h1 ?h2" using c by (intro writes_within_applyWindow) (simp add: ctx_within_def)
  have 3: "writes_within W ?h2 h3"
    using c r by (intro writes_within_rephase_channels[of c W "[0..<length (inputData c)]" rnd])
      (auto simp: ctx_within_def subset_iff)
  have 4: "writes_within W h3 (applyWindow (blockIn c) (winArray c) h3)"
    using c by (intro writes_within_applyWindow) (simp add: ctx_within_def)
  have 5: "writes_within W (applyWindow (blockIn c) (winArray c) h3) (mem s')"
    unfolding s' using c by (intro writes_within_add_frame) (simp_all add: ctx_within_def)
  from 1 2 3 4 5 show ?thesis by (blast intro: writes_within_trans)
qed

lemma writes_within_frames_loop:
  assumes l: "frames_loop c rnd s = Some s'" and c: "ctx_within W c"
  shows "writes_within W (mem s) (mem s')"
proof -
  have "ctx_within W c \<longrightarrow> writes_within W (mem s) (mem s')"
  proof (rule frames_loop.raw_induct[where P = "\<lambda>c rnd s s'. ctx_within W c \<longrightarrow> writes_within W (mem s) (mem s')", OF _ l], goal_cases)
    case (1 f c rnd s s')
    show ?case
    proof
      assume c: "ctx_within W c"
      show "writes_within W (mem s) (mem s')"
      proof (cases "inputPos s + real_of_int (winSize c) \<le> real (inputLength c)")
        case True
        with 1(2) obtain s1 where b: "frame_body c rnd s = Some s1" and r: "f c rnd s1 = Some s'"
          by (auto split: Option.bind_splits)
        have "writes_within W (mem s) (mem s1)" using c b by (rule writes_within_frame_body)
        moreover have "writes_within W (mem s1) (mem s')" using 1(1)[OF r] c by simp
        ultimately show ?thesis by (rule writes_within_trans)
      next
        case False
        with 1(2) show ?thesis by (simp add: writes_within_refl)
      qed
    qed
  qed
  with c show ?thesis by simp
qed

lemma extends_refl: "extends h h"
  by (simp add: extends_def)

lemma extends_trans: "extends h h1 \<Longrightarrow> extends h1 h2 \<Longrightarrow> extends h h2"
  by (auto simp: extends_def)

lemma alloc_spec:
  assumes "alloc xs h = (a, h')"
  shows "a = next_free h" "next_free h' = Suc (next_free h)" "arrays h' a = xs" "extends h h'"
  using assms by (auto simp: alloc_def extends_def)

lemma alloc_each_spec:
  "alloc_each n xs h = (as, h') \<Longrightarrow>
     length as = n \<and> next_free h' = next_free h + n
   \<and> set as \<subseteq> {next_free h..<next_free h'}
   \<and> (\<forall>a\<in>set as. arrays h' a = xs) \<and> extends h h'"
proof (induction n arbitrary: h as h')
  case 0
  then show ?case by (simp add: extends_refl)
next
  case (Suc n)
  obtain a h1 where a: "alloc xs h = (a, h1)" by (cases "alloc xs h") auto
  obtain as' h2 where r: "alloc_each n xs h1 = (as', h2)" by (cases "alloc_each n xs h1") auto
  from Suc.prems a r have as: "as = a # as'" and h': "h' = h2" by simp_all
  note A = alloc_spec[OF a]
  from Suc.IH[OF r] have IH: "length as' = n" "next_free h2 = next_free h1 + n"
    "set as' \<subseteq> {next_free h1..<next_free h2}" "\<forall>a\<in>set as'. arrays h2 a = xs" "extends h1 h2"
    by blast+
  have "arrays h2 a = xs" using IH(5) A by (simp add: extends_def)
  moreover have "extends h h2" using A(4) IH(5) by (rule extends_trans)
  ultimately show ?case using IH A by (auto simp: as h')
qed

lemma alloc_blocks_spec:
  "alloc_blocks k n h = (as, bs, h') \<Longrightarrow>
     length as = k \<and> length bs = k
   \<and> set as \<union> set bs \<subseteq> {next_free h..<next_free h'}
   \<and> (\<forall>a\<in>set as \<union> set bs. arrays h' a = replicate n 0) \<and> extends h h'"
proof (induction k arbitrary: h as bs h')
  case 0
  then show ?case by (simp add: extends_refl)
next
  case (Suc k)
  obtain a h1 where a: "alloc (replicate n 0) h = (a, h1)" by (cases "alloc (replicate n 0) h") auto
  obtain b h2 where b: "alloc (replicate n 0) h1 = (b, h2)" by (cases "alloc (replicate n 0) h1") auto
  obtain as' bs' h3 where r: "alloc_blocks k n h2 = (as', bs', h3)"
    by (cases "alloc_blocks k n h2") auto
  from Suc.prems a b r have e: "as = a # as'" "bs = b # bs'" "h' = h3" by simp_all
  note A = alloc_spec[OF a] and B = alloc_spec[OF b]
  from Suc.IH[OF r] have IH: "length as' = k" "length bs' = k"
    "set as' \<union> set bs' \<subseteq> {next_free h2..<next_free h3}"
    "\<forall>a\<in>set as' \<union> set bs'. arrays h3 a = replicate n 0" "extends h2 h3"
    by blast+
  have e13: "extends h1 h3" using B(4) IH(5) by (rule extends_trans)
  have "arrays h3 a = replicate n 0" using e13 A by (simp add: extends_def)
  moreover have "arrays h3 b = replicate n 0" using IH(5) B by (simp add: extends_def)
  moreover have "extends h h3" using A(4) e13 by (rule extends_trans)
  moreover have "next_free h \<le> next_free h3" "a < next_free h3" "b < next_free h3"
    using A B IH(5) by (auto simp: extends_def)
  ultimately show ?case using IH A B by (auto simp: e)
qed

lemma createBuffer_spec:
  assumes "createBuffer numChannels outLen rate h = (out, h')"
  shows "sampleRate out = rate" "frames out = nat outLen" "length (channelData out) = numChannels"
    "set (channelData out) \<subseteq> {next_free h..<next_free h'}"
    "\<forall>a\<in>set (channelData out). arrays h' a = replicate (nat outLen) 0" "extends h h'"
proof -
  obtain chans h1 where a: "alloc_each numChannels (replicate (nat outLen) 0) h = (chans, h1)"
    by (cases "alloc_each numChannels (replicate (nat outLen) 0) h") auto
  with assms have o: "out = \<lparr>sampleRate = rate, frames = nat outLen, channelData = chans\<rparr>" "h' = h1"
    by (simp_all add: createBuffer_def)
  from alloc_each_spec[OF a] show "sampleRate out = rate" "frames out = nat outLen"
    "length (channelData out) = numChannels"
    "set (channelData out) \<subseteq> {next_free h..<next_free h'}"
    "\<forall>a\<in>set (channelData out). arrays h' a = replicate (nat outLen) 0" "extends h h'"
    by (auto simp: o)
qed





lemma normalize_eq:
  "normalize_channel xs = (if 0 < maxVal_of xs then map (\<lambda>x. x * (0.95 / maxVal_of xs)) xs else xs)"
proof -
  have "fold (\<lambda>i cd. cd[i := cd ! i * s]) [0..<length xs] xs = map (\<lambda>x. x * s) xs" for s
    by (rule fold_update_map) simp
  then show ?thesis unfolding normalize_channel_def Let_def by (simp only:)
qed

lemma normalize_length: "length (normalize_channel xs) = length xs"
  by (simp add: normalize_eq)



lemma normalized_normalize: "normalized (normalize_channel xs)"
  unfolding normalized_def using normalize_length[of xs] by (intro exI[of _ xs]) simp


lemma normalize_channels_spec:
  "writes_within (set chans) h (normalize_channels chans h)"
  "has_NaN (normalize_channels chans h) = has_NaN h"
  "a \<in> set chans \<Longrightarrow> normalized (arrays (normalize_channels chans h) a)"
proof -
  show "writes_within (set chans) h (normalize_channels chans h)"
    unfolding normalize_channels_def
    by (intro writes_within_fold writes_within_update) (simp_all add: normalize_length)
  show "has_NaN (normalize_channels chans h) = has_NaN h"
    unfolding normalize_channels_def by (induction chans arbitrary: h) simp_all
  have keep: "(normalized (arrays h a)) \<Longrightarrow>
      (normalized (arrays (normalize_channels chans h) a))" for chans h
  proof (induction chans arbitrary: h)
    case Nil
    then show ?case by (simp add: normalize_channels_def)
  next
    case (Cons b chans)
    let ?h1 = "h\<lparr>arrays := (arrays h)(b := normalize_channel (arrays h b))\<rparr>"
    have e: "normalize_channels (b # chans) h = normalize_channels chans ?h1"
      by (simp add: normalize_channels_def)
    have "normalized (arrays ?h1 a)"
      using Cons.prems by (cases "a = b") (simp_all add: normalized_normalize)
    then show ?case unfolding e by (rule Cons.IH)
  qed
  show "a \<in> set chans \<Longrightarrow> normalized (arrays (normalize_channels chans h) a)"
  proof (induction chans arbitrary: h)
    case Nil then show ?case by simp
  next
    case (Cons b chans)
    let ?h1 = "h\<lparr>arrays := (arrays h)(b := normalize_channel (arrays h b))\<rparr>"
    have e: "normalize_channels (b # chans) h = normalize_channels chans ?h1"
      by (simp add: normalize_channels_def)
    show ?case
    proof (cases "a = b")
      case True
      have "normalized (arrays ?h1 a)" using True by (simp add: normalized_normalize)
      from keep[OF this, of chans] show ?thesis unfolding e .
    next
      case False
      with Cons.prems(1) have "a \<in> set chans" by simp
      from Cons.IH[OF this] show ?thesis unfolding e .
    qed
  qed
qed

lemma extends_below: "extends h h' \<Longrightarrow> a < next_free h \<Longrightarrow> arrays h' a = arrays h a"
  by (simp add: extends_def)

lemma extends_next: "extends h h' \<Longrightarrow> next_free h \<le> next_free h'"
  by (simp add: extends_def)

text \<open>The set-up of \<open>_stretchSingleThread\<close> and what its run leaves behind.\<close>

lemma stretchSingleThread_run:
  assumes run: "stretchSingleThread this rnd b h0 = Some (out, h')"
  obtains outb h1 win h2 phases h3 bIn bOut h5 s where
    "createBuffer (length (channelData b)) \<lfloor>real (frames b) * stretchFactor this\<rfloor> (sampleRate b) h0 = (outb, h1)"
    "alloc (createWindow (winSize_of (windowSamples_of (windowSize this) (sampleRate b)))) h1 = (win, h2)"
    "alloc (replicate (nat \<lfloor>real_of_int (winSize_of (windowSamples_of (windowSize this) (sampleRate b))) / 2 + 1\<rfloor>) 0) h2 = (phases, h3)"
    "alloc_blocks (length (channelData b)) (nat (winSize_of (windowSamples_of (windowSize this) (sampleRate b)))) h3 = (bIn, bOut, h5)"
    "frames_loop
       \<lparr>winSize = winSize_of (windowSamples_of (windowSize this) (sampleRate b)),
        halfWinSize = real_of_int (winSize_of (windowSamples_of (windowSize this) (sampleRate b))) / 2,
        displacePos = real_of_int (winSize_of (windowSamples_of (windowSize this) (sampleRate b))) / 2 / stretchFactor this,
        outputLength = \<lfloor>real (frames b) * stretchFactor this\<rfloor>, inputLength = frames b,
        inputData = channelData b, outputData = channelData outb,
        winArray = win, blockIn = bIn, blockOut = bOut, phaseArray = phases\<rparr>
       rnd \<lparr>inputPos = 0, outputPos = 0, frameCount = 0, randomCalls = 0, mem = h5\<rparr> = Some s"
    "out = outb" "h' = normalize_channels (channelData outb) (mem s)"
proof -
  let ?ws = "winSize_of (windowSamples_of (windowSize this) (sampleRate b))"
  obtain outb h1 where 1: "createBuffer (length (channelData b)) \<lfloor>real (frames b) * stretchFactor this\<rfloor> (sampleRate b) h0 = (outb, h1)"
    by (cases "createBuffer (length (channelData b)) \<lfloor>real (frames b) * stretchFactor this\<rfloor> (sampleRate b) h0") auto
  obtain win h2 where 2: "alloc (createWindow ?ws) h1 = (win, h2)"
    by (cases "alloc (createWindow ?ws) h1") auto
  obtain phases h3 where 3: "alloc (replicate (nat \<lfloor>real_of_int ?ws / 2 + 1\<rfloor>) 0) h2 = (phases, h3)"
    by (cases "alloc (replicate (nat \<lfloor>real_of_int ?ws / 2 + 1\<rfloor>) 0) h2") auto
  obtain bIn bOut h5 where 4: "alloc_blocks (length (channelData b)) (nat ?ws) h3 = (bIn, bOut, h5)"
    by (cases "alloc_blocks (length (channelData b)) (nat ?ws) h3") auto
  from run show ?thesis
    unfolding stretchSingleThread_def Let_def 1 2 3 4 prod.case
    by (auto split: Option.bind_splits intro: that[OF 1 2 3 4])
qed

lemma stretchSingleThread_post:
  assumes run: "stretchSingleThread this rnd b h0 = Some (out, h')"
  shows "sampleRate out = sampleRate b"
    and "frames out = nat \<lfloor>real (frames b) * stretchFactor this\<rfloor>"
    and "length (channelData out) = length (channelData b)"
    and "set (channelData out) \<subseteq> {next_free h0..<next_free h'}"
    and "\<forall>a\<in>set (channelData out). length (arrays h' a) = frames out"
    and "\<forall>a<next_free h0. arrays h' a = arrays h0 a"
    and "\<forall>a\<in>set (channelData out). normalized (arrays h' a)"
proof -
  from run obtain outb h1 win h2 phases h3 bIn bOut h5 s c where
    cb: "createBuffer (length (channelData b)) \<lfloor>real (frames b) * stretchFactor this\<rfloor> (sampleRate b) h0 = (outb, h1)"
    and aw: "alloc (createWindow (winSize_of (windowSamples_of (windowSize this) (sampleRate b)))) h1 = (win, h2)"
    and ap: "alloc (replicate (nat \<lfloor>real_of_int (winSize_of (windowSamples_of (windowSize this) (sampleRate b))) / 2 + 1\<rfloor>) 0) h2 = (phases, h3)"
    and ab: "alloc_blocks (length (channelData b)) (nat (winSize_of (windowSamples_of (windowSize this) (sampleRate b)))) h3 = (bIn, bOut, h5)"
    and c: "c = \<lparr>winSize = winSize_of (windowSamples_of (windowSize this) (sampleRate b)),
        halfWinSize = real_of_int (winSize_of (windowSamples_of (windowSize this) (sampleRate b))) / 2,
        displacePos = real_of_int (winSize_of (windowSamples_of (windowSize this) (sampleRate b))) / 2 / stretchFactor this,
        outputLength = \<lfloor>real (frames b) * stretchFactor this\<rfloor>, inputLength = frames b,
        inputData = channelData b, outputData = channelData outb,
        winArray = win, blockIn = bIn, blockOut = bOut, phaseArray = phases\<rparr>"
    and loop: "frames_loop c rnd \<lparr>inputPos = 0, outputPos = 0, frameCount = 0, randomCalls = 0, mem = h5\<rparr> = Some s"
    and out: "out = outb" and h': "h' = normalize_channels (channelData outb) (mem s)"
    by (rule stretchSingleThread_run) blast
  note CB = createBuffer_spec[OF cb] and AW = alloc_spec[OF aw] and AP = alloc_spec[OF ap]
    and AB = alloc_blocks_spec[OF ab]
  let ?W = "{next_free h0..<next_free h5}"
  have n01: "next_free h0 \<le> next_free h1" using CB(6) by (rule extends_next)
  have n: "next_free h1 \<le> next_free h2" "next_free h2 \<le> next_free h3" "next_free h3 \<le> next_free h5"
    using AW(4) AP(4) AB by (auto dest: extends_next)
  have e15: "extends h1 h5" using AW(4) AP(4) AB by (blast intro: extends_trans)
  have e05: "extends h0 h5" using CB(6) e15 by (rule extends_trans)
  have outW: "set (channelData outb) \<subseteq> ?W" using CB(4) n by auto
  have cw: "ctx_within ?W c"
    unfolding ctx_within_def c using outW AB CB(3) AW(1) AP(1) AP(2) n n01
    by (auto simp: subset_iff)
  from writes_within_frames_loop[OF loop cw] have ws: "writes_within ?W h5 (mem s)" by simp
  have wn: "writes_within ?W (mem s) h'"
    unfolding h' using normalize_channels_spec(1)[of "channelData outb" "mem s"] outW
    by (auto simp: writes_within_def)
  have w: "writes_within ?W h5 h'" using ws wn by (rule writes_within_trans)
  show "sampleRate out = sampleRate b" "frames out = nat \<lfloor>real (frames b) * stretchFactor this\<rfloor>"
    "length (channelData out) = length (channelData b)"
    using CB(1,2,3) by (simp_all add: out)
  show "set (channelData out) \<subseteq> {next_free h0..<next_free h'}"
    using outW w by (simp add: out writes_within_def)
  show "\<forall>a\<in>set (channelData out). length (arrays h' a) = frames out"
  proof
    fix a assume a: "a \<in> set (channelData out)"
    then have "a < next_free h1" using CB(4) by (auto simp: out)
    then have "arrays h5 a = arrays h1 a" using e15 by (rule extends_below[rotated])
    then have "length (arrays h5 a) = nat \<lfloor>real (frames b) * stretchFactor this\<rfloor>"
      using CB(5) a by (simp add: out)
    then show "length (arrays h' a) = frames out" using w CB(2) by (simp add: writes_within_def out)
  qed
  show "\<forall>a<next_free h0. arrays h' a = arrays h0 a"
  proof (intro allI impI)
    fix a assume a: "a < next_free h0"
    then have "a \<notin> ?W" by simp
    then have "arrays h' a = arrays h5 a" using w by (simp add: writes_within_def)
    also have "\<dots> = arrays h0 a" using e05 a by (rule extends_below)
    finally show "arrays h' a = arrays h0 a" .
  qed
  show "\<forall>a\<in>set (channelData out). normalized (arrays h' a)"
    unfolding h' out using normalize_channels_spec(3) by blast
qed

lemma rephase_bin_fold_length:
  "fold (rephase_bin phases) js (re, im) = (re', im') \<Longrightarrow> length re' = length re \<and> length im' = length im"
proof (induction js arbitrary: re im)
  case Nil
  then show ?case by simp
next
  case (Cons j js)
  obtain re1 im1 where s: "rephase_bin phases j (re, im) = (re1, im1)"
    by (cases "rephase_bin phases j (re, im)") auto
  then have "length re1 = length re" "length im1 = length im"
    by (auto simp: rephase_bin_def Let_def)
  with Cons.IH[of re1 im1] Cons.prems s show ?case by simp
qed

lemma mirror_bin_fold_length:
  "fold (mirror_bin ws) js (re, im) = (re', im') \<Longrightarrow> length re' = length re \<and> length im' = length im"
proof (induction js arbitrary: re im)
  case Nil
  then show ?case by simp
next
  case (Cons j js)
  obtain re1 im1 where s: "mirror_bin ws j (re, im) = (re1, im1)"
    by (cases "mirror_bin ws j (re, im)") auto
  then have "length re1 = length re" "length im1 = length im"
    by (auto simp: mirror_bin_def)
  with Cons.IH[of re1 im1] Cons.prems s show ?case by simp
qed

lemma rephase_ifft_returns:
  assumes m: "m \<le> 29" and la: "length array = 2 ^ m"
  shows "\<exists>re im. rephase_ifft (2 ^ m) array phases = Some (re, im) \<and> length re = 2 ^ m \<and> length im = 2 ^ m"
proof -
  let ?N = "2 ^ m :: nat"
  let ?half = "real_of_int (2 ^ m) / 2"
  have natN: "nat (2 ^ m) = ?N" by (simp add: nat_power_eq)
  obtain re1 im1 where f: "forward (new_FFT (2 ^ m)) array (replicate ?N 0) = Some (re1, im1)"
    "length re1 = ?N" "length im1 = ?N"
    using forward_correct[OF m la, of "replicate ?N 0"] by auto
  obtain re2 im2 where p: "fold (rephase_bin phases) [0..<nat \<lfloor>?half\<rfloor> + 1] (re1, im1) = (re2, im2)"
    by (cases "fold (rephase_bin phases) [0..<nat \<lfloor>?half\<rfloor> + 1] (re1, im1)") auto
  obtain re3 im3 where q: "fold (mirror_bin (2 ^ m)) [1..<nat \<lceil>?half\<rceil>] (re2, im2) = (re3, im3)"
    by (cases "fold (mirror_bin (2 ^ m)) [1..<nat \<lceil>?half\<rceil>] (re2, im2)") auto
  have l3: "length re3 = ?N" "length im3 = ?N"
    using rephase_bin_fold_length[OF p] mirror_bin_fold_length[OF q] f(2,3) by simp_all
  obtain re4 im4 where i: "inverse_fft (new_FFT (2 ^ m)) re3 im3 = Some (re4, im4)"
    "length re4 = ?N" "length im4 = ?N"
    using inverse_fft_correct[OF m l3] by blast
  have "rephase_ifft (2 ^ m) array phases = Some (re4, im4)"
    unfolding rephase_ifft_def Let_def natN f(1)
    by (simp only: Option.bind.simps p q fst_conv snd_conv i(1))
  with i(2,3) show ?thesis by blast
qed

lemma makeRephaser_returns:
  assumes "m \<le> 29" and "length array = 2 ^ m"
  shows "\<exists>res. makeRephaser (2 ^ m) array phases = Some res"
  using rephase_ifft_returns[OF assms, of phases] by (auto simp: makeRephaser_def)

lemma rephase_channels_returns:
  assumes m: "m \<le> 29" and ws: "winSize c = 2 ^ m"
  shows "(\<And>ch. ch \<in> set chs \<Longrightarrow> length (arrays h (blockIn c ! ch)) = 2 ^ m) \<Longrightarrow>
         \<exists>calls' h'. rephase_channels c rnd chs calls h = Some (calls', h')"
proof (induction chs arbitrary: calls h)
  case Nil
  show ?case by simp
next
  case (Cons ch chs)
  let ?n = "nat \<lfloor>halfWinSize c\<rfloor> + 1"
  define h1 where "h1 = fold (\<lambda>i. ta_set (phaseArray c) (real i) (Some (rnd (calls + i) * 2 * pi))) [0..<?n] h"
  have w1: "writes_within UNIV h h1" unfolding h1_def by (intro writes_within_fold writes_within_ta_set) simp
  then have l1: "length (arrays h1 a) = length (arrays h a)" for a by (simp add: writes_within_def)
  have "length (arrays h1 (blockIn c ! ch)) = 2 ^ m" using Cons.prems[of ch] by (simp add: l1)
  from makeRephaser_returns[OF m this] obtain res where
    res: "makeRephaser (2 ^ m) (arrays h1 (blockIn c ! ch)) (arrays h1 (phaseArray c)) = Some res"
    by blast
  define h2 where "h2 = h1\<lparr>arrays := (arrays h1)(blockIn c ! ch := res)\<rparr>"
  have r: "rephase (winSize c) (blockIn c ! ch) (phaseArray c) h1 = Some h2"
    by (simp add: rephase_def ws res h2_def)
  have "writes_within UNIV h1 h2" using r by (intro writes_within_rephase[of _ _ "winSize c" "phaseArray c"]) simp_all
  then have l2: "length (arrays h2 a) = length (arrays h a)" for a
    using l1 by (simp add: writes_within_def)
  have "\<exists>calls' h'. rephase_channels c rnd chs (calls + ?n) h2 = Some (calls', h')"
    by (rule Cons.IH) (simp add: l2 Cons.prems)
  then show ?case
    unfolding rephase_channels.simps Let_def h1_def[symmetric] r by (simp only: Option.bind.simps)
qed

lemma frame_body_returns:
  assumes m: "m \<le> 29" and ws: "winSize c = 2 ^ m" and cw: "ctx_within UNIV c"
    and len: "\<And>ch. ch < length (inputData c) \<Longrightarrow> length (arrays (mem s) (blockIn c ! ch)) = 2 ^ m"
  shows "\<exists>s'. frame_body c rnd s = Some s' \<and> inputPos s' = inputPos s + displacePos c
      \<and> writes_within UNIV (mem s) (mem s')"
proof -
  let ?h1 = "fill_blocks c (inputPos s) (mem s)"
  let ?h2 = "applyWindow (blockIn c) (winArray c) ?h1"
  have "writes_within UNIV (mem s) ?h1"
    using cw by (intro writes_within_fill_blocks) (simp_all add: ctx_within_def)
  moreover have "writes_within UNIV ?h1 ?h2" by (intro writes_within_applyWindow) simp
  ultimately have "writes_within UNIV (mem s) ?h2" by (rule writes_within_trans)
  then have "length (arrays ?h2 a) = length (arrays (mem s) a)" for a by (simp add: writes_within_def)
  then have "\<exists>calls' h'. rephase_channels c rnd [0..<length (inputData c)] (randomCalls s) ?h2 = Some (calls', h')"
    using len by (intro rephase_channels_returns[OF m ws]) simp
  then obtain calls' h3 where
    r: "rephase_channels c rnd [0..<length (inputData c)] (randomCalls s) ?h2 = Some (calls', h3)"
    by blast
  then obtain s' where b: "frame_body c rnd s = Some s'" and p: "inputPos s' = inputPos s + displacePos c"
    by (simp add: frame_body_def Let_def)
  from writes_within_frame_body[OF cw b] b p show ?thesis by blast
qed

lemma frames_loop_returns:
  assumes d: "0 < displacePos c"
    and body: "\<And>s. Q (mem s) \<Longrightarrow> \<exists>s'. frame_body c rnd s = Some s' \<and> Q (mem s')
                  \<and> inputPos s' = inputPos s + displacePos c"
  shows "Q (mem s) \<Longrightarrow> real (inputLength c) - real_of_int (winSize c) - inputPos s < real n * displacePos c \<Longrightarrow>
         \<exists>s'. frames_loop c rnd s = Some s'"
proof (induction n arbitrary: s)
  case 0
  then have "\<not> inputPos s + real_of_int (winSize c) \<le> real (inputLength c)" by simp
  then show ?case by (subst frames_loop.simps) simp
next
  case (Suc n)
  show ?case
  proof (cases "inputPos s + real_of_int (winSize c) \<le> real (inputLength c)")
    case False
    then show ?thesis by (subst frames_loop.simps) simp
  next
    case True
    from body[OF Suc.prems(1)] obtain s1 where b: "frame_body c rnd s = Some s1" "Q (mem s1)"
      "inputPos s1 = inputPos s + displacePos c" by blast
    have "real (inputLength c) - real_of_int (winSize c) - inputPos s1 < real n * displacePos c"
      using Suc.prems(2) b(3) by (simp add: algebra_simps)
    from Suc.IH[OF b(2) this] obtain s' where "frames_loop c rnd s1 = Some s'" by blast
    then show ?thesis using True b(1) by (subst frames_loop.simps) simp
  qed
qed

lemma stretchSingleThread_returns:
  assumes sf: "0 < stretchFactor this"
    and ws: "winSize_of (windowSamples_of (windowSize this) (sampleRate b)) = 2 ^ m" and m: "m \<le> 29"
  shows "\<exists>out h'. stretchSingleThread this rnd b h0 = Some (out, h')"
proof -
  let ?outLen = "\<lfloor>real (frames b) * stretchFactor this\<rfloor>"
  obtain outb h1 where cb: "createBuffer (length (channelData b)) ?outLen (sampleRate b) h0 = (outb, h1)"
    by (cases "createBuffer (length (channelData b)) ?outLen (sampleRate b) h0") auto
  obtain win h2 where aw: "alloc (createWindow (2 ^ m)) h1 = (win, h2)"
    by (cases "alloc (createWindow (2 ^ m)) h1") auto
  obtain phases h3 where ap: "alloc (replicate (nat \<lfloor>real_of_int (2 ^ m) / 2 + 1\<rfloor>) 0) h2 = (phases, h3)"
    by (cases "alloc (replicate (nat \<lfloor>real_of_int (2 ^ m) / 2 + 1\<rfloor>) 0) h2") auto
  obtain bIn bOut h5 where ab: "alloc_blocks (length (channelData b)) (nat (2 ^ m)) h3 = (bIn, bOut, h5)"
    by (cases "alloc_blocks (length (channelData b)) (nat (2 ^ m)) h3") auto
  define c where "c = \<lparr>winSize = 2 ^ m,
        halfWinSize = real_of_int (2 ^ m) / 2,
        displacePos = real_of_int (2 ^ m) / 2 / stretchFactor this,
        outputLength = ?outLen, inputLength = frames b,
        inputData = channelData b, outputData = channelData outb,
        winArray = win, blockIn = bIn, blockOut = bOut, phaseArray = phases\<rparr>"
  note CB = createBuffer_spec[OF cb] and AB = alloc_blocks_spec[OF ab]
  have cw: "ctx_within UNIV c" using AB CB(3) by (simp add: ctx_within_def c_def)
  have d: "0 < displacePos c" using sf by (simp add: c_def)
  define Q where "Q h \<longleftrightarrow> (\<forall>ch<length (channelData b). length (arrays h (bIn ! ch)) = 2 ^ m)" for h :: heap
  have Q5: "Q h5" unfolding Q_def using AB by (auto simp: nat_power_eq)
  have body: "\<exists>s'. frame_body c rnd s = Some s' \<and> Q (mem s') \<and> inputPos s' = inputPos s + displacePos c"
    if "Q (mem s)" for s
  proof -
    have "\<exists>s'. frame_body c rnd s = Some s' \<and> inputPos s' = inputPos s + displacePos c
      \<and> writes_within UNIV (mem s) (mem s')"
      using that by (intro frame_body_returns[OF m _ cw]) (simp_all add: c_def Q_def)
    then obtain s' where s': "frame_body c rnd s = Some s'" "inputPos s' = inputPos s + displacePos c"
      "writes_within UNIV (mem s) (mem s')" by blast
    have "Q (mem s')" using that s'(3) by (simp add: Q_def writes_within_def)
    with s' show ?thesis by blast
  qed
  let ?s0 = "\<lparr>inputPos = 0, outputPos = 0, frameCount = 0, randomCalls = 0, mem = h5\<rparr>"
  obtain n where n: "real (inputLength c) - real_of_int (winSize c) - inputPos ?s0 < real n * displacePos c"
    using ex_less_of_nat_mult[OF d] by blast
  have "Q (mem ?s0)" using Q5 by simp
  from frames_loop_returns[of c Q rnd ?s0 n, OF d body this n] obtain s' where
    "frames_loop c rnd ?s0 = Some s'" by blast
  then show ?thesis
    unfolding stretchSingleThread_def Let_def ws cb aw ap ab prod.case c_def
    by simp
qed

lemma grows_refl: "grows W h h"
  by (simp add: grows_def)

lemma grows_trans: "grows W h h1 \<Longrightarrow> grows W h1 h2 \<Longrightarrow> grows W h h2"
  by (auto simp: grows_def)

lemma extends_grows: "extends h h' \<Longrightarrow> grows W h h'"
  by (simp add: grows_def extends_def)

lemma writes_within_grows:
  "writes_within W' h h' \<Longrightarrow> (\<And>a. a \<in> W' \<Longrightarrow> a \<in> W \<or> next_free h \<le> a) \<Longrightarrow> grows W h h'"
  by (fastforce simp: grows_def writes_within_def)

lemma grows_then_writes:
  assumes "grows W h h1" and "writes_within W' h1 h2"
    and "\<And>a. a \<in> W' \<Longrightarrow> a \<in> W \<or> next_free h \<le> a"
  shows "grows W h h2"
  using assms by (fastforce simp: grows_def writes_within_def)

lemma receive_blocks_extends: "receive_blocks rs h = (ps, h') \<Longrightarrow> extends h h'"
proof (induction rs arbitrary: h ps h')
  case Nil
  then show ?case by (simp add: extends_refl)
next
  case (Cons r rs)
  obtain block pos where r: "r = (block, pos)" by (cases r)
  obtain a h1 where a: "alloc block h = (a, h1)" by (cases "alloc block h") auto
  obtain ps' h2 where rest: "receive_blocks rs h1 = (ps', h2)" by (cases "receive_blocks rs h1") auto
  from Cons.prems have "h' = h2" by (simp add: r a rest)
  with alloc_spec(4)[OF a] Cons.IH[OF rest] show ?case by (blast intro: extends_trans)
qed

lemma add_blocks_fold:
  "writes_within {channelOut, bOut} h
     (snd (fold (\<lambda>(block, pos) (opos, h).
                 (opos + half,
                  store_block ws block bOut (overlap_add half outLen opos channelOut block bOut 0 h)))
           allBlocks (oposA, h)))"
proof (induction allBlocks arbitrary: oposA h)
  case Nil
  show ?case by (simp add: writes_within_refl)
next
  case (Cons p ps)
  obtain block pos where p: "p = (block, pos)" by (cases p)
  let ?h1 = "store_block ws block bOut (overlap_add half outLen oposA channelOut block bOut 0 h)"
  have "writes_within {channelOut, bOut} h ?h1"
    by (rule writes_within_trans[OF writes_within_overlap_add writes_within_store_block]) simp_all
  from writes_within_trans[OF this Cons.IH[where oposA = "oposA + half" and h = ?h1]] show ?case by (simp add: p)
qed

lemma writes_within_add_blocks:
  "writes_within {channelOut, bOut} h (add_blocks ws half outLen channelOut bOut allBlocks h)"
  unfolding add_blocks_def by (rule add_blocks_fold)

lemma reassemble_channel_spec:
  assumes co: "channelOut < next_free h"
  shows "grows {channelOut} h (reassemble_channel ws half outLen channelOut allBlocks h)"
    and "normalized (arrays (reassemble_channel ws half outLen channelOut allBlocks h) channelOut)"
proof -
  obtain bOut h1 where a: "alloc (replicate (nat ws) 0) h = (bOut, h1)"
    by (cases "alloc (replicate (nat ws) 0) h") auto
  let ?h2 = "add_blocks ws half outLen channelOut bOut (sort_key snd allBlocks) h1"
  have r: "reassemble_channel ws half outLen channelOut allBlocks h = normalize_channels [channelOut] ?h2"
    by (simp add: reassemble_channel_def a)
  note A = alloc_spec[OF a]
  have g1: "grows {channelOut} h h1" using A(4) by (rule extends_grows)
  have g2: "grows {channelOut} h ?h2"
    by (rule grows_then_writes[OF g1 writes_within_add_blocks]) (use A(1) in auto)
  have "grows {channelOut} h (normalize_channels [channelOut] ?h2)"
    by (rule grows_then_writes[OF g2 normalize_channels_spec(1)]) simp
  then show "grows {channelOut} h (reassemble_channel ws half outLen channelOut allBlocks h)"
    by (simp only: r)
  show "normalized (arrays (reassemble_channel ws half outLen channelOut allBlocks h) channelOut)"
    unfolding r using normalize_channels_spec(3)[of channelOut "[channelOut]"] by simp
qed

lemma grows_mono: "grows W h h' \<Longrightarrow> W \<subseteq> W' \<Longrightarrow> grows W' h h'"
  by (auto simp: grows_def)

text \<open>The reassembly, channel by channel, from channel \<open>k\<close> on.\<close>

lemma reassemble_from:
  assumes below: "\<And>a. a \<in> set chans \<Longrightarrow> a < next_free h"
    and js: "\<And>j. j \<in> set js \<Longrightarrow> j < length chans"
  shows "grows (set chans) h
           (fold (\<lambda>ch h. case receive_blocks (channel_results queue responses ch) h of
                     (allBlocks, h1) \<Rightarrow> reassemble_channel ws half outLen (chans ! ch) allBlocks h1) js h)"
  using below js
proof (induction js arbitrary: h)
  case Nil
  show ?case by (simp add: grows_refl)
next
  case (Cons j js)
  obtain allBlocks h1 where rb: "receive_blocks (channel_results queue responses j) h = (allBlocks, h1)"
    by (cases "receive_blocks (channel_results queue responses j) h") auto
  let ?h2 = "reassemble_channel ws half outLen (chans ! j) allBlocks h1"
  have e: "extends h h1" using rb by (rule receive_blocks_extends)
  have g1: "grows (set chans) h h1" using e by (rule extends_grows)
  have nf: "next_free h \<le> next_free h1" using e by (simp add: extends_def)
  have "j < length chans" using Cons.prems(2) by simp
  then have mem: "chans ! j \<in> set chans" by simp
  with Cons.prems(1) nf have lt: "chans ! j < next_free h1" by fastforce
  have g2: "grows (set chans) h1 ?h2"
    by (rule grows_mono[OF reassemble_channel_spec(1)[OF lt]]) (use mem in simp)
  have below2: "\<And>a. a \<in> set chans \<Longrightarrow> a < next_free ?h2"
    using Cons.prems(1) nf g2 by (fastforce simp: grows_def)
  have js2: "\<And>i. i \<in> set js \<Longrightarrow> i < length chans" using Cons.prems(2) by simp
  from grows_trans[OF grows_trans[OF g1 g2] Cons.IH[OF below2 js2]]
  show ?case by (simp add: rb)
qed

lemma reassemble_grows:
  assumes "\<And>a. a \<in> set chans \<Longrightarrow> a < next_free h"
  shows "grows (set chans) h (reassemble ws half outLen chans queue responses h)"
  unfolding reassemble_def by (rule reassemble_from[OF assms]) simp_all

lemma reassemble_step:
  assumes lt: "chans ! j < next_free h"
  shows "grows {chans ! j} h
           (case receive_blocks (channel_results queue responses j) h of
              (allBlocks, h1) \<Rightarrow> reassemble_channel ws half outLen (chans ! j) allBlocks h1)"
    and "normalized (arrays (case receive_blocks (channel_results queue responses j) h of
              (allBlocks, h1) \<Rightarrow> reassemble_channel ws half outLen (chans ! j) allBlocks h1) (chans ! j))"
proof -
  obtain allBlocks h1 where rb: "receive_blocks (channel_results queue responses j) h = (allBlocks, h1)"
    by (cases "receive_blocks (channel_results queue responses j) h") auto
  have e: "extends h h1" using rb by (rule receive_blocks_extends)
  then have lt1: "chans ! j < next_free h1" using lt by (simp add: extends_def)
  from grows_trans[OF extends_grows[OF e] reassemble_channel_spec(1)[OF lt1]]
  show "grows {chans ! j} h
           (case receive_blocks (channel_results queue responses j) h of
              (allBlocks, h1) \<Rightarrow> reassemble_channel ws half outLen (chans ! j) allBlocks h1)"
    by (simp add: rb)
  from reassemble_channel_spec(2)[OF lt1]
  show "normalized (arrays (case receive_blocks (channel_results queue responses j) h of
              (allBlocks, h1) \<Rightarrow> reassemble_channel ws half outLen (chans ! j) allBlocks h1) (chans ! j))"
    by (simp add: rb)
qed

lemma reassemble_from_keeps_bound:
  assumes below: "\<And>a. a \<in> set chans \<Longrightarrow> a < next_free h"
    and js: "\<And>j. j \<in> set js \<Longrightarrow> j < length chans"
    and a: "a < next_free h"
    and bnd: "normalized (arrays h a)"
  shows "normalized (arrays
           (fold (\<lambda>ch h. case receive_blocks (channel_results queue responses ch) h of
                     (allBlocks, h1) \<Rightarrow> reassemble_channel ws half outLen (chans ! ch) allBlocks h1) js h) a)"
  using below js a bnd
proof (induction js arbitrary: h)
  case Nil
  then show ?case by simp
next
  case (Cons j js)
  let ?h2 = "case receive_blocks (channel_results queue responses j) h of
              (allBlocks, h1) \<Rightarrow> reassemble_channel ws half outLen (chans ! j) allBlocks h1"
  have "j < length chans" using Cons.prems(2) by simp
  then have mem: "chans ! j \<in> set chans" by simp
  then have lt: "chans ! j < next_free h" using Cons.prems(1) by blast
  note S = reassemble_step[OF lt, where queue = queue and responses = responses and ws = ws and half = half and outLen = outLen]
  have below2: "\<And>a. a \<in> set chans \<Longrightarrow> a < next_free ?h2"
    using Cons.prems(1) S(1) by (fastforce simp: grows_def)
  have js2: "\<And>i. i \<in> set js \<Longrightarrow> i < length chans" using Cons.prems(2) by simp
  have a2: "a < next_free ?h2" using Cons.prems(3) S(1) by (simp add: grows_def)
  have bnd2: "normalized (arrays ?h2 a)"
  proof (cases "a = chans ! j")
    case True
    then show ?thesis using S(2) by simp
  next
    case False
    then have "arrays ?h2 a = arrays h a" using S(1) Cons.prems(3) by (simp add: grows_def)
    then show ?thesis using Cons.prems(4) by simp
  qed
  from Cons.IH[OF below2 js2 a2 bnd2] show ?case by simp
qed

lemma reassemble_from_bounded:
  assumes below: "\<And>a. a \<in> set chans \<Longrightarrow> a < next_free h"
    and js: "\<And>j. j \<in> set js \<Longrightarrow> j < length chans"
    and j: "j \<in> set js"
  shows "normalized (arrays
           (fold (\<lambda>ch h. case receive_blocks (channel_results queue responses ch) h of
                     (allBlocks, h1) \<Rightarrow> reassemble_channel ws half outLen (chans ! ch) allBlocks h1) js h)
           (chans ! j))"
  using below js j
proof (induction js arbitrary: h)
  case Nil
  then show ?case by simp
next
  case (Cons i js)
  let ?h2 = "case receive_blocks (channel_results queue responses i) h of
              (allBlocks, h1) \<Rightarrow> reassemble_channel ws half outLen (chans ! i) allBlocks h1"
  have "i < length chans" using Cons.prems(2) by simp
  then have mem: "chans ! i \<in> set chans" by simp
  then have lt: "chans ! i < next_free h" using Cons.prems(1) by blast
  note S = reassemble_step[OF lt, where queue = queue and responses = responses and ws = ws and half = half and outLen = outLen]
  have below2: "\<And>a. a \<in> set chans \<Longrightarrow> a < next_free ?h2"
    using Cons.prems(1) S(1) by (fastforce simp: grows_def)
  have js2: "\<And>k. k \<in> set js \<Longrightarrow> k < length chans" using Cons.prems(2) by simp
  show ?case
  proof (cases "j \<in> set js")
    case True
    from Cons.IH[OF below2 js2 True] show ?thesis by simp
  next
    case False
    with Cons.prems(3) have ji: "j = i" by simp
    have a2: "chans ! i < next_free ?h2" using below2 mem by blast
    from reassemble_from_keeps_bound[OF below2 js2 a2 S(2)] show ?thesis by (simp add: ji)
  qed
qed

lemma reassemble_bounded:
  assumes below: "\<And>a. a \<in> set chans \<Longrightarrow> a < next_free h"
    and a: "a \<in> set chans"
  shows "normalized (arrays (reassemble ws half outLen chans queue responses h) a)"
proof -
  from a obtain j where j: "j < length chans" "a = chans ! j" by (auto simp: in_set_conv_nth)
  show ?thesis unfolding reassemble_def j(2)
    by (rule reassemble_from_bounded[OF below]) (use j(1) in simp_all)
qed


section \<open>The parallel path\<close>

lemma find_failure_None:
  "List.find (\<lambda>i. case responses i of Some (Failure e) \<Rightarrow> True | _ \<Rightarrow> False) [0..<n] = None
   \<longleftrightarrow> \<not> (\<exists>i<n. \<exists>e. responses i = Some (Failure e))"
  by (auto simp: find_None_iff split: option.splits worker_msg.splits)

lemma find_failure_Some:
  assumes "List.find (\<lambda>i. case responses i of Some (Failure e) \<Rightarrow> True | _ \<Rightarrow> False) [0..<n] = Some i"
  shows "i < n \<and> (\<exists>e. responses i = Some (Failure e))"
  using assms by (auto simp: find_Some_iff split: option.splits worker_msg.splits)

lemma stretchParallel_unfold:
  assumes cb: "createBuffer (length (channelData b)) \<lfloor>real (frames b) * stretchFactor this\<rfloor> (sampleRate b) h0 = (outb, h1)"
    and aw: "alloc (createWindow (winSize_of (windowSamples_of (windowSize this) (sampleRate b)))) h1 = (win, h2)"
  shows "stretchParallel this responses b h0 =
     (case List.find (\<lambda>i. case responses i of Some (Failure e) \<Rightarrow> True | _ \<Rightarrow> False) [0..<length (queue_of this b)] of
          Some i \<Rightarrow> (case responses i of Some (Failure e) \<Rightarrow> Some (Inl (Error e), h2) | _ \<Rightarrow> None)
        | None \<Rightarrow>
            if list_ex (\<lambda>i. responses i = None) [0..<length (queue_of this b)] then None
            else Some (Inr outb, reassemble (winSize_of (windowSamples_of (windowSize this) (sampleRate b)))
                    (real_of_int (winSize_of (windowSamples_of (windowSize this) (sampleRate b))) / 2)
                    \<lfloor>real (frames b) * stretchFactor this\<rfloor> (channelData outb) (queue_of this b) responses h2))"
  unfolding stretchParallel_def queue_of_def Let_def cb aw prod.case ..


lemma stretchParallel_cases:
  assumes run: "stretchParallel this responses b h0 = Some (r, h')"
  obtains (failed) outb h1 win e where
      "createBuffer (length (channelData b)) \<lfloor>real (frames b) * stretchFactor this\<rfloor> (sampleRate b) h0 = (outb, h1)"
      "alloc (createWindow (winSize_of (windowSamples_of (windowSize this) (sampleRate b)))) h1 = (win, h')"
      "r = Inl (Error e)" "worker_failed this b responses"
  | (answered) outb h1 win h2 where
      "createBuffer (length (channelData b)) \<lfloor>real (frames b) * stretchFactor this\<rfloor> (sampleRate b) h0 = (outb, h1)"
      "alloc (createWindow (winSize_of (windowSamples_of (windowSize this) (sampleRate b)))) h1 = (win, h2)"
      "r = Inr outb" "all_answered this b responses"
      "h' = reassemble (winSize_of (windowSamples_of (windowSize this) (sampleRate b)))
                    (real_of_int (winSize_of (windowSamples_of (windowSize this) (sampleRate b))) / 2)
                    \<lfloor>real (frames b) * stretchFactor this\<rfloor> (channelData outb) (queue_of this b) responses h2"
proof -
  obtain outb h1 where cb: "createBuffer (length (channelData b)) \<lfloor>real (frames b) * stretchFactor this\<rfloor> (sampleRate b) h0 = (outb, h1)"
    by (cases "createBuffer (length (channelData b)) \<lfloor>real (frames b) * stretchFactor this\<rfloor> (sampleRate b) h0") auto
  obtain win h2 where aw: "alloc (createWindow (winSize_of (windowSamples_of (windowSize this) (sampleRate b)))) h1 = (win, h2)"
    by (cases "alloc (createWindow (winSize_of (windowSamples_of (windowSize this) (sampleRate b)))) h1") auto
  let ?f = "List.find (\<lambda>i. case responses i of Some (Failure e) \<Rightarrow> True | _ \<Rightarrow> False) [0..<length (queue_of this b)]"
  show ?thesis
  proof (cases ?f)
    case (Some i)
    from find_failure_Some[OF Some] obtain e where e: "i < length (queue_of this b)" "responses i = Some (Failure e)" by auto
    then have wf: "worker_failed this b responses" unfolding worker_failed_def by blast
    from run have "r = Inl (Error e)" "h' = h2"
      unfolding stretchParallel_unfold[OF cb aw] Some using e(2) by simp_all
    with cb aw wf show ?thesis by (auto intro: failed)
  next
    case None
    then have nf: "\<not> (\<exists>i<length (queue_of this b). \<exists>e. responses i = Some (Failure e))"
      unfolding find_failure_None .
    from run have np: "\<not> list_ex (\<lambda>i. responses i = None) [0..<length (queue_of this b)]"
      and r: "r = Inr outb"
      and h': "h' = reassemble (winSize_of (windowSamples_of (windowSize this) (sampleRate b)))
                    (real_of_int (winSize_of (windowSamples_of (windowSize this) (sampleRate b))) / 2)
                    \<lfloor>real (frames b) * stretchFactor this\<rfloor> (channelData outb) (queue_of this b) responses h2"
      unfolding stretchParallel_unfold[OF cb aw] None by (simp_all split: if_splits)
    have "all_answered this b responses"
      unfolding all_answered_def
    proof (intro allI impI)
      fix i assume i: "i < length (queue_of this b)"
      with np have "responses i \<noteq> None" by (auto simp: list_ex_iff)
      then obtain msg where msg: "responses i = Some msg" by auto
      with nf i show "\<exists>rs. responses i = Some (Success rs)" by (cases msg) auto
    qed
    with cb aw r h' show ?thesis by (auto intro: answered)
  qed
qed

lemma stretchParallel_answered:
  assumes "all_answered this b responses"
  shows "\<exists>out h'. stretchParallel this responses b h0 = Some (Inr out, h')"
proof -
  obtain outb h1 where cb: "createBuffer (length (channelData b)) \<lfloor>real (frames b) * stretchFactor this\<rfloor> (sampleRate b) h0 = (outb, h1)"
    by (cases "createBuffer (length (channelData b)) \<lfloor>real (frames b) * stretchFactor this\<rfloor> (sampleRate b) h0") auto
  obtain win h2 where aw: "alloc (createWindow (winSize_of (windowSamples_of (windowSize this) (sampleRate b)))) h1 = (win, h2)"
    by (cases "alloc (createWindow (winSize_of (windowSamples_of (windowSize this) (sampleRate b)))) h1") auto
  let ?f = "List.find (\<lambda>i. case responses i of Some (Failure e) \<Rightarrow> True | _ \<Rightarrow> False) [0..<length (queue_of this b)]"
  from assms have "?f = None" unfolding find_failure_None all_answered_def by fastforce
  moreover from assms have "\<not> list_ex (\<lambda>i. responses i = None) [0..<length (queue_of this b)]"
    unfolding all_answered_def by (fastforce simp: list_ex_iff)
  ultimately show ?thesis unfolding stretchParallel_unfold[OF cb aw] by simp
qed

lemma stretchParallel_post:
  assumes run: "stretchParallel this responses b h0 = Some (r, h')"
  shows "next_free h0 \<le> next_free h'"
    and "\<forall>a<next_free h0. arrays h' a = arrays h0 a"
    and "r = Inr out \<Longrightarrow> sampleRate out = sampleRate b"
    and "r = Inr out \<Longrightarrow> frames out = nat \<lfloor>real (frames b) * stretchFactor this\<rfloor>"
    and "r = Inr out \<Longrightarrow> length (channelData out) = length (channelData b)"
    and "r = Inr out \<Longrightarrow> set (channelData out) \<subseteq> {next_free h0..<next_free h'}"
    and "r = Inr out \<Longrightarrow> \<forall>a\<in>set (channelData out). length (arrays h' a) = frames out"
    and "r = Inr out \<Longrightarrow> \<forall>a\<in>set (channelData out). normalized (arrays h' a)"
proof -
  have all: "next_free h0 \<le> next_free h' \<and> (\<forall>a<next_free h0. arrays h' a = arrays h0 a)
    \<and> (r = Inr out \<longrightarrow> sampleRate out = sampleRate b
          \<and> frames out = nat \<lfloor>real (frames b) * stretchFactor this\<rfloor>
          \<and> length (channelData out) = length (channelData b)
          \<and> set (channelData out) \<subseteq> {next_free h0..<next_free h'}
          \<and> (\<forall>a\<in>set (channelData out). length (arrays h' a) = frames out)
          \<and> (\<forall>a\<in>set (channelData out). normalized (arrays h' a)))"
    using run
  proof (cases rule: stretchParallel_cases)
  case (failed outb h1 win e)
  note CB = createBuffer_spec[OF failed(1)] and AW = alloc_spec[OF failed(2)]
  have e: "extends h0 h'" using CB(6) AW(4) by (rule extends_trans)
  then show ?thesis using failed(3) by (simp add: extends_def)
next
  case (answered outb h1 win h2)
  note CB = createBuffer_spec[OF answered(1)] and AW = alloc_spec[OF answered(2)]
  have e: "extends h0 h2" using CB(6) AW(4) by (rule extends_trans)
  have e12: "extends h1 h2" using AW(4) .
  have n01: "next_free h0 \<le> next_free h1" using CB(6) by (rule extends_next)
  have n12: "next_free h1 \<le> next_free h2" using e12 by (rule extends_next)
  have below: "\<And>a. a \<in> set (channelData outb) \<Longrightarrow> a < next_free h2"
    using CB(4) n12 by fastforce
  have g: "grows (set (channelData outb)) h2 h'"
    unfolding answered(5) by (rule reassemble_grows[OF below])
  have b: "\<forall>a\<in>set (channelData outb). normalized (arrays h' a)"
    unfolding answered(5) using reassemble_bounded[OF below] by blast
  have 1: "next_free h0 \<le> next_free h'" using e g by (simp add: extends_def grows_def)
  have 2: "\<forall>a<next_free h0. arrays h' a = arrays h0 a"
  proof (intro allI impI)
    fix a assume a: "a < next_free h0"
    then have "a \<notin> set (channelData outb)" using CB(4) by auto
    moreover have "a < next_free h2" using a e by (simp add: extends_def)
    ultimately have "arrays h' a = arrays h2 a" using g by (simp add: grows_def)
    then show "arrays h' a = arrays h0 a" using e a by (simp add: extends_def)
  qed
  have 3: "set (channelData outb) \<subseteq> {next_free h0..<next_free h'}"
    using CB(4) n12 g by (fastforce simp: grows_def)
  have 4: "\<forall>a\<in>set (channelData outb). length (arrays h' a) = frames outb"
  proof
    fix a assume a: "a \<in> set (channelData outb)"
    then have lt: "a < next_free h1" using CB(4) by auto
    then have "arrays h2 a = arrays h1 a" using e12 by (simp add: extends_def)
    moreover have "length (arrays h' a) = length (arrays h2 a)" using g below[OF a] by (simp add: grows_def)
    ultimately show "length (arrays h' a) = frames outb" using CB(5) CB(2) a by simp
  qed
  show ?thesis using 1 2 3 4 b CB(1,2,3) answered(3) by blast
  qed
  from all show "next_free h0 \<le> next_free h'" "\<forall>a<next_free h0. arrays h' a = arrays h0 a" by blast+
  from all show "r = Inr out \<Longrightarrow> sampleRate out = sampleRate b"
    "r = Inr out \<Longrightarrow> frames out = nat \<lfloor>real (frames b) * stretchFactor this\<rfloor>"
    "r = Inr out \<Longrightarrow> length (channelData out) = length (channelData b)"
    "r = Inr out \<Longrightarrow> set (channelData out) \<subseteq> {next_free h0..<next_free h'}"
    "r = Inr out \<Longrightarrow> \<forall>a\<in>set (channelData out). length (arrays h' a) = frames out"
    "r = Inr out \<Longrightarrow> \<forall>a\<in>set (channelData out). normalized (arrays h' a)"
    by blast+
qed


section \<open>The calls of stretch\<close>

lemma winSize_of_pow2_le:
  assumes "1 \<le> w" and "w \<le> 2 ^ k"
  shows "\<exists>m\<le>k. winSize_of w = 2 ^ m"
proof -
  have "real_of_int w \<le> real_of_int (2 ^ k)" using assms(2) by (simp only: of_int_le_iff)
  then have "real_of_int w \<le> 2 ^ k" by simp
  then have "log 2 (real_of_int w) \<le> log 2 (2 ^ k)"
    using assms(1) by (subst log_le_cancel_iff) auto
  also have "\<dots> = real k" by simp
  finally have "log 2 (real_of_int w) \<le> real_of_int (int k)" by simp
  then have "\<lceil>log 2 (real_of_int w)\<rceil> \<le> int k" by (rule ceiling_le)
  then have "nat \<lceil>log 2 (real_of_int w)\<rceil> \<le> k" by linarith
  moreover have "winSize_of w = 2 ^ nat \<lceil>log 2 (real_of_int w)\<rceil>"
    using assms(1) by (simp add: winSize_of_def)
  ultimately show ?thesis by blast
qed

lemma winSize_of_pow2:
  assumes "1 \<le> w" and "w \<le> 2 ^ 29"
  shows "\<exists>m\<le>29. winSize_of w = 2 ^ m"
  using assms by (rule winSize_of_pow2_le)













lemma stretch_post:
  assumes run: "stretch this rnd responses (Buffer b) h = Some (r, h')"
  shows "\<forall>a<next_free h. arrays h' a = arrays h a"
    and "r = Inr out \<Longrightarrow> sampleRate out = sampleRate b"
    and "r = Inr out \<Longrightarrow> frames out = nat \<lfloor>real (frames b) * stretchFactor this\<rfloor>"
    and "r = Inr out \<Longrightarrow> length (channelData out) = length (channelData b)"
    and "r = Inr out \<Longrightarrow> set (channelData out) \<subseteq> {next_free h..<next_free h'}"
    and "r = Inr out \<Longrightarrow> \<forall>a\<in>set (channelData out). length (arrays h' a) = frames out"
    and "r = Inr out \<Longrightarrow> \<forall>a\<in>set (channelData out). normalized (arrays h' a)"
proof -
  have all: "(\<forall>a<next_free h. arrays h' a = arrays h a)
    \<and> (r = Inr out \<longrightarrow> sampleRate out = sampleRate b
          \<and> frames out = nat \<lfloor>real (frames b) * stretchFactor this\<rfloor>
          \<and> length (channelData out) = length (channelData b)
          \<and> set (channelData out) \<subseteq> {next_free h..<next_free h'}
          \<and> (\<forall>a\<in>set (channelData out). length (arrays h' a) = frames out)
          \<and> (\<forall>a\<in>set (channelData out). normalized (arrays h' a)))"
  proof (cases "useWorkers this \<and> workers this > 0")
    case True
    with run have p: "stretchParallel this responses b h = Some (r, h')" by (simp add: stretch_def)
    from stretchParallel_post[OF p] show ?thesis by blast
  next
    case False
    with run obtain o1 where s: "stretchSingleThread this rnd b h = Some (o1, h')" and r: "r = Inr o1"
      by (auto simp: stretch_def)
    from stretchSingleThread_post[OF s] r show ?thesis by blast
  qed
  from all show "\<forall>a<next_free h. arrays h' a = arrays h a" by blast
  from all show "r = Inr out \<Longrightarrow> sampleRate out = sampleRate b"
    "r = Inr out \<Longrightarrow> frames out = nat \<lfloor>real (frames b) * stretchFactor this\<rfloor>"
    "r = Inr out \<Longrightarrow> length (channelData out) = length (channelData b)"
    "r = Inr out \<Longrightarrow> set (channelData out) \<subseteq> {next_free h..<next_free h'}"
    "r = Inr out \<Longrightarrow> \<forall>a\<in>set (channelData out). length (arrays h' a) = frames out"
    "r = Inr out \<Longrightarrow> \<forall>a\<in>set (channelData out). normalized (arrays h' a)"
    by blast+
qed

lemma stretch_returns:
  assumes "if useWorkers this \<and> 0 < workers this then all_answered this b responses
           else 0 < stretchFactor this
              \<and> 1 \<le> windowSamples_of (windowSize this) (sampleRate b)
              \<and> windowSamples_of (windowSize this) (sampleRate b) \<le> 2 ^ 29"
  shows "\<exists>out h'. stretch this rnd responses (Buffer b) h = Some (Inr out, h')"
proof (cases "useWorkers this \<and> 0 < workers this")
  case True
  with assms have "all_answered this b responses" by simp
  from stretchParallel_answered[OF this, of h] True show ?thesis by (simp add: stretch_def)
next
  case False
  with assms have sf: "0 < stretchFactor this"
    and w: "1 \<le> windowSamples_of (windowSize this) (sampleRate b)"
      "windowSamples_of (windowSize this) (sampleRate b) \<le> 2 ^ 29" by simp_all
  from winSize_of_pow2[OF w] obtain m where m: "m \<le> 29"
    "winSize_of (windowSamples_of (windowSize this) (sampleRate b)) = 2 ^ m" by blast
  from stretchSingleThread_returns[OF sf m(2) m(1), of rnd h] False
  show ?thesis by (auto simp: stretch_def)
qed

lemma demo_window: "windowSamples_of (1 / 4) 8 = 2" "winSize_of 2 = 2"
  by (simp_all add: windowSamples_of_def winSize_of_def)

lemma demo_run:
  "\<exists>out h'. stretch (demo_stretch False (1 / 4)) rnd responses (Buffer demo_buffer) demo_heap = Some (Inr out, h')"
  by (rule stretch_returns) (simp add: demo_stretch_def demo_buffer_def demo_window)




section \<open>Reads outside the arrays\<close>

































section \<open>The answers of the workers\<close>

lemma process_frame_returns:
  assumes m: "m \<le> 29"
  shows "\<exists>block. process_frame (2 ^ m) input win rnd calls pos = Some block \<and> length block = 2 ^ m"
proof -
  define block1 where "block1 = fold (\<lambda>j b. b[j := b ! j * win ! j]) [0..<nat (2 ^ m)]
      (fold (\<lambda>j b. b[j := input ! (nat \<lfloor>pos\<rfloor> + j)]) [0..<nat (2 ^ m)] (replicate (nat (2 ^ m)) 0))"
  define phases where "phases = fold (\<lambda>j p. p[j := rnd (calls + j) * 2 * pi]) [0..<nat \<lfloor>real_of_int (2 ^ m) / 2\<rfloor> + 1]
                    (replicate (nat \<lfloor>real_of_int (2 ^ m) / 2 + 1\<rfloor>) 0)"
  have natN: "nat (2 ^ m) = (2::nat) ^ m" by (simp add: nat_power_eq)
  have l1: "length block1 = 2 ^ m" unfolding block1_def by (simp add: length_fold_update natN)
  from rephase_ifft_returns[OF m l1, of phases] obtain re im where
    r: "rephase_ifft (2 ^ m) block1 phases = Some (re, im)" by blast
  have "process_frame (2 ^ m) input win rnd calls pos
      = Some (fold (\<lambda>j b. b[j := re ! j * win ! j]) [0..<nat (2 ^ m)] block1)"
    unfolding process_frame_def Let_def block1_def[symmetric] phases_def[symmetric] r by simp
  moreover have "length (fold (\<lambda>j b. b[j := re ! j * win ! j]) [0..<nat (2 ^ m)] block1) = 2 ^ m"
    by (simp add: length_fold_update l1)
  ultimately show ?thesis by blast
qed

lemma processFrames_loop_returns:
  assumes m: "m \<le> 29"
  shows "k = n - i \<Longrightarrow>
     \<exists>rs. processFrames_loop (2 ^ m) d input win rnd (enat n) i pos results = Some rs
        \<and> (\<forall>p\<in>set rs. p \<in> set results \<or> length (fst p) = 2 ^ m)"
proof (induction k arbitrary: i pos results)
  case 0
  then have "\<not> enat i < enat n" by simp
  then have "processFrames_loop (2 ^ m) d input win rnd (enat n) i pos results = Some results"
    by (subst processFrames_loop.simps) simp
  then show ?case by simp
next
  case (Suc k)
  then have lt: "enat i < enat n" by simp
  show ?case
  proof (cases "pos + real_of_int (2 ^ m) > real (length input)")
    case True
    with lt have "processFrames_loop (2 ^ m) d input win rnd (enat n) i pos results = Some results"
      by (subst processFrames_loop.simps) simp
    then show ?thesis by simp
  next
    case False
    from process_frame_returns[OF m, of input win rnd "i * (nat \<lfloor>real_of_int (2 ^ m) / 2\<rfloor> + 1)" pos]
    obtain block where b: "process_frame (2 ^ m) input win rnd (i * (nat \<lfloor>real_of_int (2 ^ m) / 2\<rfloor> + 1)) pos = Some block"
      and l: "length block = 2 ^ m" by blast
    have e: "processFrames_loop (2 ^ m) d input win rnd (enat n) i pos results
        = processFrames_loop (2 ^ m) d input win rnd (enat n) (Suc i) (pos + d) (results @ [(block, pos)])"
      by (subst processFrames_loop.simps) (use lt False b in simp)
    from Suc.prems have "k = n - Suc i" by simp
    from Suc.IH[OF this, of "pos + d" "results @ [(block, pos)]"] obtain rs where
      rs: "processFrames_loop (2 ^ m) d input win rnd (enat n) (Suc i) (pos + d) (results @ [(block, pos)]) = Some rs"
      and pr: "\<forall>p\<in>set rs. p \<in> set (results @ [(block, pos)]) \<or> length (fst p) = 2 ^ m" by blast
    have "\<forall>p\<in>set rs. p \<in> set results \<or> length (fst p) = 2 ^ m"
    proof
      fix p assume "p \<in> set rs"
      with pr have "p \<in> set results \<or> p = (block, pos) \<or> length (fst p) = 2 ^ m" by auto
      then show "p \<in> set results \<or> length (fst p) = 2 ^ m" using l by auto
    qed
    with rs show ?thesis unfolding e by blast
  qed
qed

lemma chunk_channel_finite:
  "u \<in> set (chunk_channel ideal tot d ch f) \<Longrightarrow> \<exists>k. numFrames u = enat k"
proof (induction ideal tot d ch f rule: chunk_channel.induct)
  case (1 ideal tot d ch f)
  show ?case
  proof (cases "f < tot \<and> \<not> min ideal (tot - f) \<le> 0")
    case True
    then have e: "chunk_channel ideal tot d ch f
        = \<lparr>channelIndex = ch, startFrame = real_of_int f * d, numFrames = enat (nat (min ideal (tot - f)))\<rparr>
               # chunk_channel ideal tot d ch (f + min ideal (tot - f))"
      by (subst chunk_channel.simps) (simp add: Let_def)
    from "1.prems" have "u = \<lparr>channelIndex = ch, startFrame = real_of_int f * d, numFrames = enat (nat (min ideal (tot - f)))\<rparr>
        \<or> u \<in> set (chunk_channel ideal tot d ch (f + min ideal (tot - f)))"
      unfolding e by simp
    then show ?thesis
    proof
      assume "u = \<lparr>channelIndex = ch, startFrame = real_of_int f * d, numFrames = enat (nat (min ideal (tot - f)))\<rparr>"
      then show ?thesis by simp
    next
      assume "u \<in> set (chunk_channel ideal tot d ch (f + min ideal (tot - f)))"
      with True show ?thesis by (intro "1.IH"[where x = "min ideal (tot - f)"]) simp_all
    qed
  next
    case False
    then have "chunk_channel ideal tot d ch f = []"
      by (subst chunk_channel.simps) (auto simp: Let_def)
    with "1.prems" show ?thesis by simp
  qed
qed

lemma work_queue_finite:
  assumes "d \<noteq> 0" and "u \<in> set (work_queue n len ws d k)"
  shows "\<exists>j. numFrames u = enat j"
  using assms by (auto simp: work_queue_def Let_def dest: chunk_channel_finite)

text \<open>Workers that run \<open>processFrames\<close> answer every unit, with blocks of \<open>winSize\<close> samples.\<close>

lemma worker_answers_spec:
  assumes sf: "0 < stretchFactor this"
    and w: "1 \<le> windowSamples_of (windowSize this) (sampleRate b)"
      "windowSamples_of (windowSize this) (sampleRate b) \<le> 2 ^ 29"
  shows "all_answered this b (worker_answers this b h rnds)"
    and "blocks_sized this b (worker_answers this b h rnds)"
proof -
  let ?ws = "winSize_of (windowSamples_of (windowSize this) (sampleRate b))"
  from winSize_of_pow2[OF w] obtain m where m: "m \<le> 29" and ws: "?ws = 2 ^ m" by blast
  have d: "real_of_int ?ws / 2 / stretchFactor this \<noteq> 0" using sf by (simp add: ws)
  have natN: "nat (2 ^ m) = (2::nat) ^ m" by (simp add: nat_power_eq)
  have ans: "\<exists>rs. worker_answers this b h rnds i = Some (Success rs) \<and> (\<forall>p\<in>set rs. length (fst p) = nat ?ws)"
    if i: "i < length (queue_of this b)" for i
  proof -
    from i have "queue_of this b ! i \<in> set (queue_of this b)" by simp
    then obtain j where j: "numFrames (queue_of this b ! i) = enat j"
      unfolding queue_of_def Let_def using work_queue_finite[OF d] by blast
    from processFrames_loop_returns[OF m refl, of "real_of_int (2 ^ m) / 2 / stretchFactor this"
        "arrays h (channelData b ! channelIndex (queue_of this b ! i))" "createWindow (2 ^ m)" "rnds i" j 0
        "startFrame (queue_of this b ! i)" "[]"]
    obtain rs where rs: "processFrames_loop (2 ^ m) (real_of_int (2 ^ m) / 2 / stretchFactor this)
          (arrays h (channelData b ! channelIndex (queue_of this b ! i))) (createWindow (2 ^ m)) (rnds i) (enat j) 0
          (startFrame (queue_of this b ! i)) [] = Some rs"
      and l: "\<forall>p\<in>set rs. length (fst p) = 2 ^ m" by auto
    have "worker_answers this b h rnds i
        = map_option Success (processFrames ?ws (stretchFactor this)
            (arrays h (channelData b ! channelIndex (queue_of this b ! i))) (createWindow ?ws) (rnds i)
            (startFrame (queue_of this b ! i)) (numFrames (queue_of this b ! i)))"
      by (simp add: worker_answers_def queue_of_def Let_def)
    also have "\<dots> = Some (Success rs)" unfolding ws j processFrames_def rs by simp
    finally have "worker_answers this b h rnds i = Some (Success rs)" .
    with l show ?thesis by (simp add: ws natN)
  qed
  show "all_answered this b (worker_answers this b h rnds)"
    unfolding all_answered_def using ans by blast
  show "blocks_sized this b (worker_answers this b h rnds)"
    unfolding blocks_sized_def using ans by fastforce
qed










section \<open>Reassembly in the parallel path\<close>




section \<open>Claim C4: the dimensions of the output\<close>





section \<open>Claim C6: input shorter than the window\<close>




section \<open>Claim C8: the errors of stretch\<close>




section \<open>Claim C9: the input is left as it was\<close>

text \<open>
  Claim C9: whenever \<open>stretch\<close> ends on a buffer, with an output or with the error of a
  worker, on either path, every channel array of the input that existed before the call
  (and more generally every array that existed before the call) has the contents it had
  before the call.
\<close>

theorem stretch_leaves_input:
  assumes "stretch this rnd responses (Buffer b) h = Some (r, h')"
    and "a \<in> set (channelData b)" and "a < next_free h"
  shows "arrays h' a = arrays h a"
  using stretch_post(1)[OF assms(1)] assms(3) by blast

text \<open>The call on four frames with a window of two samples: the input channel is unchanged.\<close>

theorem stretch_leaves_input_witness:
  "\<exists>r h'. stretch (demo_stretch False (1 / 4)) demo_rnd no_answers (Buffer demo_buffer) demo_heap = Some (r, h')
         \<and> arrays h' 0 = [1 / 2, - 1, 1 / 4, 0]"
proof -
  obtain out h' where run: "stretch (demo_stretch False (1 / 4)) demo_rnd no_answers (Buffer demo_buffer) demo_heap
      = Some (Inr out, h')"
    using demo_run by blast
  from stretch_leaves_input[OF run, of 0] have "arrays h' 0 = arrays demo_heap 0"
    by (simp add: demo_buffer_def demo_heap_def)
  with run show ?thesis by (simp add: demo_heap_def)
qed


section \<open>Claim C5: the normalization of the output\<close>





end
